theory Spec2Isabelle
  imports Complex_Main
begin

section \<open>JavaScript values of the datasets\<close>

text \<open>
  The component \<^verbatim>\<open>Trip.js\<close> receives two JSON collections, trips and passenger events.
  JavaScript numbers are modelled as \<^typ>\<open>real\<close>: every number of the data is finite,
  and arithmetic is exact (the rounding of IEEE doubles is not modelled).

  A value that the code tests with \<^verbatim>\<open>typeof v === "number"\<close> is a \<open>jsval\<close>: either a
  number, or a value of another type (\<^verbatim>\<open>null\<close>, \<^verbatim>\<open>undefined\<close>, a string, ...). Of such
  a value the code only ever uses what it converts to in a numeric comparison (JavaScript's
  ToNumber), so that is what \<open>NonNum\<close> carries: \<open>Some x\<close> for a value converting to
  \<open>x\<close> (\<^verbatim>\<open>null\<close> converts to 0), \<open>None\<close> for one converting to NaN (\<^verbatim>\<open>undefined\<close>).
\<close>

datatype jsval = Num real | NonNum "real option"

definition js_null :: jsval where
  "js_null = NonNum (Some 0)"

definition js_undefined :: jsval where
  "js_undefined = NonNum None"

fun is_number :: "jsval \<Rightarrow> bool" where
  "is_number (Num x) = True"
| "is_number (NonNum c) = False"

fun to_number :: "jsval \<Rightarrow> real option" where
  "to_number (Num x) = Some x"
| "to_number (NonNum c) = c"

fun the_num :: "jsval \<Rightarrow> real" where
  "the_num (Num x) = x"
| "the_num (NonNum c) = 0"

text \<open>\<^verbatim>\<open>time >= v\<close> for a number \<open>time\<close>: false when \<open>v\<close> converts to NaN.\<close>

definition js_ge :: "real \<Rightarrow> jsval \<Rightarrow> bool" where
  "js_ge time v = (case to_number v of None \<Rightarrow> False | Some x \<Rightarrow> x \<le> time)"

text \<open>A coordinate array \<^verbatim>\<open>[lon, lat]\<close>. An entry of a route is such an array or \<^verbatim>\<open>null\<close>.\<close>

type_synonym point = "real \<times> real"

type_synonym entry = "point option"

section \<open>Time format and colour mapping\<close>

subsection \<open>Number to string\<close>

definition digit_char :: "nat \<Rightarrow> char" where
  "digit_char d = ''0123456789'' ! d"

fun nat_toString :: "nat \<Rightarrow> string" where
  "nat_toString n = (if n < 10 then [digit_char n] else nat_toString (n div 10) @ [digit_char (n mod 10)])"

declare nat_toString.simps [simp del]

text \<open>\<^verbatim>\<open>value.toString()\<close> of an integral number; negative zero prints as \<^verbatim>\<open>0\<close>.\<close>

definition toString :: "int \<Rightarrow> string" where
  "toString n = (if n < 0 then CHR ''-'' # nat_toString (nat (- n)) else nat_toString (nat n))"

definition addZeroFill :: "int \<Rightarrow> string" where
  "addZeroFill v = (let valueString = toString v in
     if length valueString < 2 then ''0'' @ valueString else valueString)"

subsection \<open>Arithmetic of the clock reading\<close>

text \<open>\<^verbatim>\<open>Math.round\<close>: the nearest integer, a tie going up.\<close>

definition Math_round :: "real \<Rightarrow> int" where
  "Math_round x = \<lfloor>x + 1 / 2\<rfloor>"

definition trunc :: "real \<Rightarrow> int" where
  "trunc x = (if x < 0 then \<lceil>x\<rceil> else \<lfloor>x\<rfloor>)"

text \<open>The remainder operator \<^verbatim>\<open>%\<close>: the result has the sign of the dividend.\<close>

definition js_rem :: "real \<Rightarrow> real \<Rightarrow> real" where
  "js_rem x y = x - y * of_int (trunc (x / y))"

definition js_rem_int :: "int \<Rightarrow> int \<Rightarrow> int" where
  "js_rem_int n m = n - m * trunc (of_int n / of_int m)"

text \<open>
  \<^verbatim>\<open>parseInt\<close> of a number prints it and reads the integer prefix back. Its argument here
  is \<open>(n / 60) % 24\<close> for an integer \<open>n\<close>: zero, or of magnitude between 1/60 and 24,
  which prints in plain decimal notation, so the integer prefix is the number truncated
  towards zero.
\<close>

definition parseInt :: "real \<Rightarrow> int" where
  "parseInt x = trunc x"

definition returnAnimationDisplayTime :: "real \<Rightarrow> string \<times> string" where
  "returnAnimationDisplayTime time =
     (let hour = addZeroFill (parseInt (js_rem (of_int (Math_round time) / 60) 24));
          minute = addZeroFill (js_rem_int (Math_round time) 60)
      in (hour, minute))"

text \<open>The reading as the specification words it: two decimal digits of a number below 100.\<close>

definition two_digits :: "nat \<Rightarrow> string" where
  "two_digits n = [digit_char (n div 10), digit_char (n mod 10)]"

definition spec_hour :: "real \<Rightarrow> nat" where
  "spec_hour t = nat (\<lfloor>t / 60\<rfloor> mod 24)"

definition spec_minute :: "real \<Rightarrow> nat" where
  "spec_minute t = nat (Math_round t mod 60)"

definition rounded_hour :: "real \<Rightarrow> nat" where
  "rounded_hour t = nat ((Math_round t div 60) mod 24)"

subsection \<open>Colour of a waiting time\<close>

type_synonym colour = "nat \<times> nat \<times> nat"

text \<open>\<open>None\<close> is a missing wait (\<^verbatim>\<open>undefined\<close> or \<^verbatim>\<open>null\<close>), which \<^verbatim>\<open>wait || 0\<close> replaces by 0.\<close>

definition waitToColor :: "real option \<Rightarrow> colour" where
  "waitToColor wait =
     (let w = max 0 (case wait of None \<Rightarrow> 0 | Some x \<Rightarrow> x) in
      if w < 15 then (255, 255, 255)
      else if w < 30 then (255, 230, 230)
      else if w < 45 then (255, 190, 190)
      else if w < 60 then (255, 140, 140)
      else (200, 0, 0))"

text \<open>The five buckets as the specification lists them, numbered 1 to 5, and their colours.\<close>

definition wait_bucket :: "real \<Rightarrow> nat" where
  "wait_bucket w =
     (if w \<in> {0..<15} then 1 else if w \<in> {15..<30} then 2 else if w \<in> {30..<45} then 3
      else if w \<in> {45..<60} then 4 else if 60 \<le> w then 5 else 0)"

fun bucket_colour :: "nat \<Rightarrow> colour" where
  "bucket_colour n =
     (if n = 1 then (255, 255, 255) else if n = 2 then (255, 230, 230)
      else if n = 3 then (255, 190, 190) else if n = 4 then (255, 140, 140)
      else (200, 0, 0))"

definition clamped_wait :: "real option \<Rightarrow> real" where
  "clamped_wait wait = (case wait of None \<Rightarrow> 0 | Some x \<Rightarrow> if x < 0 then 0 else x)"

section \<open>The datasets\<close>

text \<open>
  An identifier is a number or a string; the \<^verbatim>\<open>Map\<close> of the code compares keys by value.
  A field that is absent (or \<^verbatim>\<open>null\<close>) is \<open>None\<close>. A trip or passenger entry of a
  collection is \<open>None\<close> when the entry is \<^verbatim>\<open>null\<close>. The collection of trips,
  \<^verbatim>\<open>props.trip\<close>, is \<open>None\<close> when the property is absent; the collection of passengers
  is always a list, since the component reads \<^verbatim>\<open>props.passengers || []\<close>.
\<close>

datatype ident = IdNum real | IdStr string

record trip =
  passenger_id :: "ident option"
  route :: "entry list option"
  timestamp :: "jsval list option"

text \<open>
  A passenger event. Its fields \<^verbatim>\<open>passenger_id\<close>, \<^verbatim>\<open>timestamp\<close>, \<^verbatim>\<open>loc\<close>, \<^verbatim>\<open>location\<close> carry
  the prefix \<open>p_\<close> here, to keep them apart from the fields of a trip.
\<close>

record passenger =
  p_passenger_id :: "ident option"
  p_timestamp :: "jsval list option"
  p_loc :: "entry list option"
  p_location :: "point option"
  wait_min :: jsval

section \<open>Time range and clock\<close>

definition minTime :: real where
  "minTime = 7 * 60"

definition animationSpeed :: real where
  "animationSpeed = 1 / 2"

text \<open>The body of the two scanning loops: the last timestamp, when it is a larger number.\<close>

definition scan_last :: "real \<Rightarrow> jsval list option \<Rightarrow> real" where
  "scan_last maxT tso =
     (case tso of None \<Rightarrow> maxT
      | Some ts \<Rightarrow>
          if length ts = 0 then maxT
          else (let last_t = ts ! (length ts - 1) in
                if is_number last_t \<and> the_num last_t > maxT then the_num last_t else maxT))"

definition dataMaxFromTrips :: "trip option list option \<Rightarrow> real" where
  "dataMaxFromTrips trip =
     (case trip of None \<Rightarrow> 0
      | Some xs \<Rightarrow>
          if length xs = 0 then 0
          else foldl (\<lambda>maxT t. case t of None \<Rightarrow> maxT | Some tr \<Rightarrow> scan_last maxT (timestamp tr)) 0 xs)"

definition dataMaxFromPassengers :: "passenger option list \<Rightarrow> real" where
  "dataMaxFromPassengers passengers =
     (if length passengers = 0 then 0
      else foldl (\<lambda>maxT p. case p of None \<Rightarrow> maxT | Some pa \<Rightarrow> scan_last maxT (p_timestamp pa)) 0 passengers)"

text \<open>\<^verbatim>\<open>Number.isFinite(candidate)\<close> holds of every real number.\<close>

definition maxTime :: "trip option list option \<Rightarrow> passenger option list \<Rightarrow> real" where
  "maxTime trip passengers =
     (let candidate = max (minTime + 60) (max (dataMaxFromTrips trip) (dataMaxFromPassengers passengers))
      in if candidate > minTime then candidate else minTime + 60)"

definition returnAnimationTime :: "real \<Rightarrow> real \<Rightarrow> real" where
  "returnAnimationTime maxT t = (if t > maxT then minTime else t + (1 / 100) * animationSpeed)"

text \<open>
  The state \<^verbatim>\<open>time\<close> starts at \<open>minTime\<close>. An animation frame replaces it by
  \<open>returnAnimationTime\<close> of it; the slider replaces it by the value chosen. Every frame
  renders the value of the state after the events so far.
\<close>

datatype clock_event = Tick | Seek real

fun clock_step :: "real \<Rightarrow> real \<Rightarrow> clock_event \<Rightarrow> real" where
  "clock_step maxT time Tick = returnAnimationTime maxT time"
| "clock_step maxT time (Seek v) = v"

definition clock_run :: "real \<Rightarrow> clock_event list \<Rightarrow> real" where
  "clock_run maxT evs = foldl (clock_step maxT) minTime evs"

text \<open>The numeric last timestamps of a collection, for stating what the range is.\<close>

fun present :: "'a option list \<Rightarrow> 'a list" where
  "present [] = []"
| "present (None # xs) = present xs"
| "present (Some x # xs) = x # present xs"

fun last_stamps :: "jsval list option list \<Rightarrow> real list" where
  "last_stamps [] = []"
| "last_stamps (None # xs) = last_stamps xs"
| "last_stamps (Some ts # xs) =
     (if ts \<noteq> [] \<and> is_number (last ts) then the_num (last ts) # last_stamps xs else last_stamps xs)"

definition trip_lasts :: "trip option list option \<Rightarrow> real list" where
  "trip_lasts trip = (case trip of None \<Rightarrow> [] | Some xs \<Rightarrow> last_stamps (map timestamp (present xs)))"

definition passenger_lasts :: "passenger option list \<Rightarrow> real list" where
  "passenger_lasts ps = last_stamps (map p_timestamp (present ps))"

section \<open>Passengers\<close>

record passengerInfo =
  call :: jsval
  pickupTime :: jsval
  pickupLoc :: entry

record marker =
  location :: entry

record visiblePassenger = marker +
  wait :: real

text \<open>The \<^verbatim>\<open>Map\<close> from passenger identifier to trip: the first trip of each identifier stays.\<close>

fun build_tripByPid :: "trip option list \<Rightarrow> (ident \<rightharpoonup> trip) \<Rightarrow> (ident \<rightharpoonup> trip)" where
  "build_tripByPid [] m = m"
| "build_tripByPid (None # ts) m = build_tripByPid ts m"
| "build_tripByPid (Some t # ts) m =
     (case passenger_id t of None \<Rightarrow> build_tripByPid ts m
      | Some pid \<Rightarrow> build_tripByPid ts (if m pid \<noteq> None then m else m(pid \<mapsto> t)))"

definition tripByPid :: "trip option list option \<Rightarrow> (ident \<rightharpoonup> trip)" where
  "tripByPid trip =
     (case trip of None \<Rightarrow> Map.empty
      | Some xs \<Rightarrow> if length xs > 0 then build_tripByPid xs Map.empty else Map.empty)"

text \<open>\<^verbatim>\<open>xs[i]\<close> where the index may lie beyond the end: \<^verbatim>\<open>undefined\<close> there.\<close>

definition js_index :: "jsval list \<Rightarrow> nat \<Rightarrow> jsval" where
  "js_index xs i = (if i < length xs then xs ! i else js_undefined)"

text \<open>
  The loop over the route of the matched trip, from index \<open>i\<close> on: at the first entry equal
  to the pickup location it stops, with the timestamp of that index when that is a number.
\<close>

fun scan_route :: "entry list \<Rightarrow> nat \<Rightarrow> jsval list \<Rightarrow> point \<Rightarrow> real option" where
  "scan_route [] i ts px = None"
| "scan_route (pt # rest) i ts px =
     (case pt of None \<Rightarrow> scan_route rest (Suc i) ts px
      | Some q \<Rightarrow>
          if fst q = fst px \<and> snd q = snd px
          then (let tsVal = js_index ts i in if is_number tsVal then Some (the_num tsVal) else None)
          else scan_route rest (Suc i) ts px)"

text \<open>
  The body of the loop over the passengers. \<open>found\<close> is the pickup time after the search
  in the matched trip: the two later tests \<^verbatim>\<open>pickupTime == null\<close> hold exactly when no
  number has been assigned before.
\<close>

definition passenger_info :: "(ident \<rightharpoonup> trip) \<Rightarrow> passenger \<Rightarrow> passengerInfo" where
  "passenger_info byPid p =
     (let t = (case p_passenger_id p of None \<Rightarrow> None | Some pid \<Rightarrow> byPid pid);
          hasTs = (case p_timestamp p of None \<Rightarrow> False | Some ts \<Rightarrow> length ts \<ge> 1);
          call = (if hasTs then the (p_timestamp p) ! 0 else js_null);
          pickupLoc = (case p_loc p of Some (e # es) \<Rightarrow> e | _ \<Rightarrow> p_location p);
          found = (case (t, pickupLoc) of
                     (Some tr, Some px) \<Rightarrow>
                       (case (route tr, timestamp tr) of
                          (Some rt, Some ts) \<Rightarrow> scan_route rt 0 ts px
                        | _ \<Rightarrow> None)
                   | _ \<Rightarrow> None);
          pickupTime = (case found of
                          Some v \<Rightarrow> Num v
                        | None \<Rightarrow>
                            if is_number call \<and> is_number (wait_min p)
                            then Num (the_num call + the_num (wait_min p))
                            else call)
      in \<lparr>call = call, pickupTime = pickupTime, pickupLoc = pickupLoc\<rparr>)"

definition passengerInfos :: "trip option list option \<Rightarrow> passenger option list \<Rightarrow> passengerInfo list" where
  "passengerInfos trip passengers =
     (if length passengers = 0 then []
      else map (passenger_info (tripByPid trip)) (present passengers))"

fun visiblePassengers :: "passengerInfo list \<Rightarrow> real \<Rightarrow> visiblePassenger list" where
  "visiblePassengers [] time = []"
| "visiblePassengers (info # infos) time =
     (if pickupLoc info \<noteq> None \<and> is_number (call info) \<and> is_number (pickupTime info)
         \<and> time \<ge> the_num (call info) \<and> time \<le> the_num (pickupTime info)
      then \<lparr>location = pickupLoc info, wait = the_num (pickupTime info) - the_num (call info)\<rparr>
             # visiblePassengers infos time
      else visiblePassengers infos time)"

text \<open>The first trip of the collection with a given identifier, and the first index of a
  route holding a given point, for stating what the resolution finds.\<close>

definition first_trip :: "trip option list option \<Rightarrow> ident \<Rightarrow> trip option" where
  "first_trip trip k =
     (case trip of None \<Rightarrow> None | Some xs \<Rightarrow> find (\<lambda>t. passenger_id t = Some k) (present xs))"

fun first_route_index :: "entry list \<Rightarrow> point \<Rightarrow> nat option" where
  "first_route_index [] px = None"
| "first_route_index (e # es) px =
     (if e = Some px then Some 0 else map_option Suc (first_route_index es px))"

section \<open>Per-frame trip outputs\<close>

subsection \<open>Position of the vehicle\<close>

text \<open>
  The block that computes the current position of a vehicle (lines 391 to 415, and again,
  word for word, lines 463 to 486). \<^verbatim>\<open>a[0]\<close> on a \<^verbatim>\<open>null\<close> route entry raises a
  TypeError. Array reads of this block are checked: a read outside \<open>0 .. length - 1\<close>,
  where JavaScript gives \<^verbatim>\<open>undefined\<close>, is the outcome \<open>UndefinedRead\<close>, so that
  whether such a read can happen is a property of the model.
\<close>

datatype js_error = TypeError | UndefinedRead

definition read_at :: "'a list \<Rightarrow> int \<Rightarrow> js_error + 'a" where
  "read_at xs i = (if 0 \<le> i \<and> i < int (length xs) then Inr (xs ! nat i) else Inl UndefinedRead)"

text \<open>The test of the loop: \<^verbatim>\<open>ts[k + 1]\<close> is read only when \<^verbatim>\<open>ts[k]\<close> is a number.\<close>

definition segment_test :: "jsval list \<Rightarrow> real \<Rightarrow> int \<Rightarrow> js_error + bool" where
  "segment_test ts time k =
     (case read_at ts k of Inl e \<Rightarrow> Inl e
      | Inr tk \<Rightarrow>
          if \<not> is_number tk then Inr False
          else (case read_at ts (k + 1) of Inl e \<Rightarrow> Inl e
                | Inr tk1 \<Rightarrow> Inr (is_number tk1 \<and> the_num tk \<le> time \<and> time < the_num tk1)))"

text \<open>
  The \<^verbatim>\<open>for\<close> loop from \<open>k\<close> on, with the current value of \<^verbatim>\<open>idx\<close>: a segment that
  holds the time ends the loop with its index; otherwise \<^verbatim>\<open>idx\<close> becomes
  \<open>length - 2\<close> when the time is at or after the last timestamp, and the loop goes on.
\<close>

function segment_loop :: "jsval list \<Rightarrow> real \<Rightarrow> int \<Rightarrow> int \<Rightarrow> js_error + int" where
  "segment_loop ts time k idx =
     (if k < int (length ts) - 1 then
        (case segment_test ts time k of Inl e \<Rightarrow> Inl e
         | Inr found \<Rightarrow>
             if found then Inr k
             else (case read_at ts (int (length ts) - 1) of Inl e \<Rightarrow> Inl e
                   | Inr l \<Rightarrow>
                       segment_loop ts time (k + 1)
                         (if js_ge time l then int (length ts) - 2 else idx)))
      else Inr idx)"
  by pat_completeness auto
termination
  by (relation "measure (\<lambda>(ts, time, k, idx). nat (int (length ts) - 1 - k))") auto

declare segment_loop.simps [simp del]

text \<open>\<^verbatim>\<open>Math.max(0, Math.min(i, xs.length - 1))\<close>\<close>

definition clamp_index :: "int \<Rightarrow> nat \<Rightarrow> int" where
  "clamp_index i n = max 0 (min i (int n - 1))"

definition blend :: "entry \<Rightarrow> entry \<Rightarrow> jsval \<Rightarrow> jsval \<Rightarrow> real \<Rightarrow> js_error + entry" where
  "blend a b t0 t1 time =
     (if is_number t0 \<and> is_number t1 \<and> the_num t1 > the_num t0 then
        (let alpha = max 0 (min 1 ((time - the_num t0) / (the_num t1 - the_num t0))) in
         case a of None \<Rightarrow> Inl TypeError
         | Some pa \<Rightarrow>
             (case b of None \<Rightarrow> Inl TypeError
              | Some pb \<Rightarrow>
                  Inr (Some (fst pa + (fst pb - fst pa) * alpha, snd pa + (snd pb - snd pa) * alpha))))
      else Inr a)"

definition interpolate :: "entry list \<Rightarrow> jsval list \<Rightarrow> real \<Rightarrow> js_error + entry" where
  "interpolate rt ts time =
     (case segment_loop ts time 0 0 of Inl e \<Rightarrow> Inl e
      | Inr idx \<Rightarrow>
     (case read_at rt (clamp_index idx (length rt)) of Inl e \<Rightarrow> Inl e
      | Inr a \<Rightarrow>
     (case read_at rt (clamp_index (idx + 1) (length rt)) of Inl e \<Rightarrow> Inl e
      | Inr b \<Rightarrow>
     (case read_at ts (clamp_index idx (length ts)) of Inl e \<Rightarrow> Inl e
      | Inr t0 \<Rightarrow>
     (case read_at ts (clamp_index (idx + 1) (length ts)) of Inl e \<Rightarrow> Inl e
      | Inr t1 \<Rightarrow> blend a b t0 t1 time)))))"

subsection \<open>The three collections\<close>

record arc =
  source :: point
  target :: point

text \<open>The guard that opens the body of each of the three loops over the trips.\<close>

definition usable :: "trip option \<Rightarrow> (entry list \<times> jsval list) option" where
  "usable t =
     (case t of None \<Rightarrow> None
      | Some tr \<Rightarrow>
          (case route tr of None \<Rightarrow> None
           | Some rt \<Rightarrow>
               (case timestamp tr of None \<Rightarrow> None
                | Some ts \<Rightarrow> if length rt < 2 \<or> length ts < 2 then None else Some (rt, ts))))"

text \<open>A loop over the trips that pushes what each body yields, and stops at a raised error.\<close>

fun collect :: "('a \<Rightarrow> js_error + 'b list) \<Rightarrow> 'a list \<Rightarrow> js_error + 'b list" where
  "collect f [] = Inr []"
| "collect f (x # xs) =
     (case f x of Inl e \<Rightarrow> Inl e
      | Inr ys \<Rightarrow> (case collect f xs of Inl e \<Rightarrow> Inl e | Inr zs \<Rightarrow> Inr (ys @ zs)))"



definition match_arc :: "trip option \<Rightarrow> real \<Rightarrow> js_error + arc list" where
  "match_arc t time =
     (case usable t of None \<Rightarrow> Inr []
      | Some (rt, ts) \<Rightarrow>
          (let start = ts ! 0;
               pickup_t = ts ! 1
           in if \<not> is_number start \<or> \<not> is_number pickup_t
                 \<or> time < the_num start \<or> time > the_num pickup_t
              then Inr []
              else (case interpolate rt ts time of Inl e \<Rightarrow> Inl e
                    | Inr cur \<Rightarrow>
                        (case (cur, rt ! 1) of
                           (Some c, Some pickup) \<Rightarrow> Inr [\<lparr>source = c, target = pickup\<rparr>]
                         | _ \<Rightarrow> Inr []))))"

definition match_arcs :: "trip option list option \<Rightarrow> real \<Rightarrow> js_error + arc list" where
  "match_arcs trip time =
     (case trip of None \<Rightarrow> Inr []
      | Some xs \<Rightarrow> if length xs = 0 then Inr [] else collect (\<lambda>t. match_arc t time) xs)"

definition occupied_arc :: "trip option \<Rightarrow> real \<Rightarrow> js_error + arc list" where
  "occupied_arc t time =
     (case usable t of None \<Rightarrow> Inr []
      | Some (rt, ts) \<Rightarrow>
          (let pickup_t = ts ! 1;
               drop_t = ts ! (length ts - 1)
           in if \<not> is_number pickup_t \<or> \<not> is_number drop_t
                 \<or> time < the_num pickup_t \<or> time > the_num drop_t
              then Inr []
              else (case interpolate rt ts time of Inl e \<Rightarrow> Inl e
                    | Inr cur \<Rightarrow>
                        (case (cur, rt ! (length rt - 1)) of
                           (Some c, Some dest) \<Rightarrow> Inr [\<lparr>source = c, target = dest\<rparr>]
                         | _ \<Rightarrow> Inr []))))"

definition occupied_arcs :: "trip option list option \<Rightarrow> real \<Rightarrow> js_error + arc list" where
  "occupied_arcs trip time =
     (case trip of None \<Rightarrow> Inr []
      | Some xs \<Rightarrow> if length xs = 0 then Inr [] else collect (\<lambda>t. occupied_arc t time) xs)"

section \<open>Notions for stating the properties\<close>

text \<open>The test of the loop at index \<open>k\<close>: segment \<open>k\<close> holds the time.\<close>

definition hit :: "jsval list \<Rightarrow> real \<Rightarrow> nat \<Rightarrow> bool" where
  "hit ts time k = (is_number (ts ! k) \<and> is_number (ts ! Suc k)
      \<and> the_num (ts ! k) \<le> time \<and> time < the_num (ts ! Suc k))"

definition stamp :: "jsval list \<Rightarrow> nat \<Rightarrow> real" where
  "stamp ts k = the_num (ts ! k)"

text \<open>The interpolation as the specification words it: the fraction of a segment that has
  elapsed, clamped to [0, 1] and 0 on a segment of no duration, and the blend per axis.\<close>

definition alpha_of :: "real \<Rightarrow> real \<Rightarrow> real \<Rightarrow> real" where
  "alpha_of t0 t1 t = (if t1 = t0 then 0 else max 0 (min 1 ((t - t0) / (t1 - t0))))"

definition lerp :: "point \<Rightarrow> point \<Rightarrow> real \<Rightarrow> point" where
  "lerp a b alpha = (fst a + (fst b - fst a) * alpha, snd a + (snd b - snd a) * alpha)"

definition segment_position :: "entry list \<Rightarrow> jsval list \<Rightarrow> nat \<Rightarrow> real \<Rightarrow> entry" where
  "segment_position rt ts k t =
     Some (lerp (the (rt ! k)) (the (rt ! Suc k)) (alpha_of (stamp ts k) (stamp ts (Suc k)) t))"

text \<open>The path of the specification's data model: route and timestamps of one length, at
  least 2, the timestamps numbers that never decrease, every route entry a coordinate pair.\<close>

definition well_formed_path :: "entry list \<Rightarrow> jsval list \<Rightarrow> bool" where
  "well_formed_path rt ts =
     (length rt = length ts \<and> 2 \<le> length ts \<and> list_all is_number ts
      \<and> sorted (map the_num ts) \<and> list_all (\<lambda>e. e \<noteq> None) rt)"

text \<open>A trip whose route or timestamp field is missing or shorter than 2 elements (or a
  \<^verbatim>\<open>null\<close> entry of the collection), and a trip with a timestamp that is not a number.\<close>

definition malformed :: "trip option \<Rightarrow> bool" where
  "malformed t =
     (case t of None \<Rightarrow> True
      | Some tr \<Rightarrow>
          (case route tr of None \<Rightarrow> True | Some rt \<Rightarrow> length rt < 2)
          \<or> (case timestamp tr of None \<Rightarrow> True | Some ts \<Rightarrow> length ts < 2))"


text \<open>
  What the resolution of a passenger starts from, in the words of the specification: the
  call time is the first timestamp of the passenger event (\<^verbatim>\<open>null\<close> without one), the
  recorded pickup location is \<open>loc[0]\<close>, else \<open>location\<close>, and the matched trip is the
  first trip of the collection whose \<open>passenger_id\<close> is that of the passenger (none for
  a passenger without one).
\<close>

definition recorded_call :: "passenger \<Rightarrow> jsval" where
  "recorded_call p = (case p_timestamp p of Some (c # cs) \<Rightarrow> c | _ \<Rightarrow> js_null)"

definition recorded_pickup :: "passenger \<Rightarrow> entry" where
  "recorded_pickup p = (case p_loc p of Some (e # es) \<Rightarrow> e | _ \<Rightarrow> p_location p)"

definition matched_trip :: "trip option list option \<Rightarrow> passenger \<Rightarrow> trip option" where
  "matched_trip trip p = (case p_passenger_id p of None \<Rightarrow> None | Some k \<Rightarrow> first_trip trip k)"

text \<open>Rules (b) and (c) of the chain: call time plus \<open>wait_min\<close> when both are numbers,
  else the call time.\<close>

definition fallback_time :: "passenger \<Rightarrow> jsval" where
  "fallback_time p =
     (if is_number (recorded_call p) \<and> is_number (wait_min p)
      then Num (the_num (recorded_call p) + the_num (wait_min p))
      else recorded_call p)"

text \<open>There is no route point to take a timestamp from: no matched trip, no recorded
  pickup location, no route array, no route point equal to the location, or no timestamp
  array.\<close>

definition no_route_match :: "trip option list option \<Rightarrow> passenger \<Rightarrow> bool" where
  "no_route_match trip p =
     (case (matched_trip trip p, recorded_pickup p) of
        (Some tr, Some px) \<Rightarrow>
          (case route tr of None \<Rightarrow> True
           | Some rt \<Rightarrow> Some px \<notin> set rt \<or> timestamp tr = None)
      | _ \<Rightarrow> True)"

subsection \<open>Example data\<close>

definition trip_a :: trip where
  "trip_a = \<lparr>passenger_id = Some (IdNum 1),
     route = Some [Some (0, 0), Some (1, 1), Some (2, 2)],
     timestamp = Some [Num 0, Num 10, Num 20]\<rparr>"

definition trip_a2 :: trip where
  "trip_a2 = \<lparr>passenger_id = Some (IdNum 1),
     route = Some [Some (1, 1), Some (4, 4)],
     timestamp = Some [Num 50, Num 60]\<rparr>"

definition trip_b :: trip where
  "trip_b = \<lparr>passenger_id = Some (IdNum 2),
     route = Some [Some (0, 0), Some (1, 1), Some (2, 2)],
     timestamp = Some [Num 421, Num 425, Num 430]\<rparr>"

definition trip_c :: trip where
  "trip_c = \<lparr>passenger_id = Some (IdNum 3),
     route = Some [Some (0, 0), Some (1, 1), Some (2, 2)],
     timestamp = Some [Num 430, Num 450, Num 920]\<rparr>"

text \<open>A trip whose route is shorter than its timestamps, and a trip without a route.\<close>

definition trip_m :: trip where
  "trip_m = \<lparr>passenger_id = Some (IdNum 4),
     route = Some [Some (0, 0), Some (1, 1)],
     timestamp = Some [Num 0, Num 10, Num 20, Num 30]\<rparr>"




text \<open>A trip whose timestamp at the pickup point is \<^verbatim>\<open>null\<close>, and a trip without
  \<open>passenger_id\<close>.\<close>

definition trip_gap :: trip where
  "trip_gap = \<lparr>passenger_id = Some (IdNum 1),
     route = Some [Some (0, 0), Some (1, 1), Some (2, 2)],
     timestamp = Some [Num 0, js_null, Num 20]\<rparr>"

definition trip_noid :: trip where
  "trip_noid = \<lparr>passenger_id = None,
     route = Some [Some (0, 0), Some (1, 1), Some (2, 2)],
     timestamp = Some [Num 0, Num 10, Num 20]\<rparr>"

definition passenger_late :: passenger where
  "passenger_late = \<lparr>p_passenger_id = Some (IdNum 9), p_timestamp = Some [Num 1000],
     p_loc = None, p_location = Some (3, 3), wait_min = js_undefined\<rparr>"

definition passenger_w :: passenger where
  "passenger_w = \<lparr>p_passenger_id = Some (IdNum 1), p_timestamp = Some [Num 3],
     p_loc = Some [Some (1, 1)], p_location = None, wait_min = Num 5\<rparr>"

definition passenger_x :: passenger where
  "passenger_x = \<lparr>p_passenger_id = Some (IdNum 1), p_timestamp = Some [Num 3],
     p_loc = Some [Some (9, 9)], p_location = None, wait_min = Num 5\<rparr>"

definition passenger_y :: passenger where
  "passenger_y = \<lparr>p_passenger_id = Some (IdNum 1), p_timestamp = Some [Num 3],
     p_loc = Some [Some (9, 9)], p_location = None, wait_min = js_undefined\<rparr>"

text \<open>A passenger with \<open>location\<close> instead of \<open>loc\<close>, and one without
  \<open>passenger_id\<close>.\<close>

definition passenger_l :: passenger where
  "passenger_l = \<lparr>p_passenger_id = Some (IdNum 1), p_timestamp = Some [Num 3],
     p_loc = None, p_location = Some (1, 1), wait_min = Num 5\<rparr>"

definition passenger_n :: passenger where
  "passenger_n = \<lparr>p_passenger_id = None, p_timestamp = Some [Num 3],
     p_loc = Some [Some (1, 1)], p_location = None, wait_min = Num 5\<rparr>"

definition info_w :: passengerInfo where
  "info_w = \<lparr>call = Num 100, pickupTime = Num 130, pickupLoc = Some (1, 2)\<rparr>"

section \<open>Theorems\<close>

subsection \<open>Colour of a waiting time\<close>

lemma wait_bucket_clamped: "wait_bucket (clamped_wait w) \<in> {1, 2, 3, 4, 5}"
  by (cases w) (auto simp: wait_bucket_def clamped_wait_def)

text \<open>
  C6. The colour of a wait value is the colour of the bucket, among the five left-closed,
  right-open buckets [0,15), [15,30), [30,45), [45,60), [60,infinity), that holds the wait
  after a negative or missing wait has been replaced by 0; a wait of 15 is in the second
  bucket and a wait of 60 in the fifth.
\<close>

theorem waitToColor_buckets:
  "waitToColor w = bucket_colour (wait_bucket (clamped_wait w))
   \<and> wait_bucket (clamped_wait w) \<in> {1, 2, 3, 4, 5}
   \<and> (\<forall>x. x < 0 \<longrightarrow> waitToColor (Some x) = waitToColor (Some 0))
   \<and> waitToColor None = waitToColor (Some 0)
   \<and> wait_bucket 15 = 2 \<and> waitToColor (Some 15) = (255, 230, 230)
   \<and> wait_bucket 60 = 5 \<and> waitToColor (Some 60) = (200, 0, 0)"
  by (cases w) (auto simp: waitToColor_def wait_bucket_def clamped_wait_def)

theorem waitToColor_buckets_witness:
  "waitToColor (Some (149 / 10)) = (255, 255, 255) \<and> wait_bucket (149 / 10) = 1
   \<and> waitToColor (Some (599 / 10)) = (255, 140, 140) \<and> wait_bucket (599 / 10) = 4
   \<and> waitToColor (Some (- 3)) = waitToColor (Some 0)"
  using waitToColor_buckets [of "Some (149 / 10)"] waitToColor_buckets [of "Some (599 / 10)"]
  by (simp add: wait_bucket_def clamped_wait_def)

subsection \<open>Clock display\<close>

lemma hour_value:
  assumes "0 \<le> n"
  shows "parseInt (js_rem (of_int n / 60) 24) = (n div 60) mod 24"
proof -
  let ?x = "(of_int n :: real) / 60"
  have x0: "0 \<le> ?x" using assms by simp
  have q: "\<lfloor>real_of_int n / 1440\<rfloor> = n div 1440"
    using floor_divide_of_int_eq [of n 1440, where ?'a = real] by simp
  have "0 \<le> real_of_int n / 1440" using assms by simp
  then have t1: "trunc (real_of_int n / 1440) = n div 1440"
    using q by (simp add: trunc_def)
  have r: "js_rem ?x 24 = ?x - of_int (24 * (n div 1440))"
    by (simp add: js_rem_def t1)
  have f60: "\<lfloor>?x\<rfloor> = n div 60"
    using floor_divide_of_int_eq [of n 60, where ?'a = real] by simp
  have fl: "\<lfloor>js_rem ?x 24\<rfloor> = n div 60 - 24 * (n div 1440)"
    unfolding r by (simp only: floor_diff_of_int f60)
  have d: "n div 1440 = (n div 60) div 24"
    by (simp add: div_mult2_eq)
  have m: "n div 60 - 24 * (n div 1440) = (n div 60) mod 24"
    unfolding d by (simp add: minus_mult_div_eq_mod)
  have "0 \<le> (n div 60) mod 24" by simp
  then have "0 \<le> \<lfloor>js_rem ?x 24\<rfloor>" using fl m by simp
  then have "0 \<le> js_rem ?x 24" by (simp add: zero_le_floor)
  then show ?thesis using fl m by (simp add: parseInt_def trunc_def)
qed

lemma minute_value:
  assumes "0 \<le> n"
  shows "js_rem_int n 60 = n mod 60"
proof -
  have "\<lfloor>(of_int n :: real) / 60\<rfloor> = n div 60"
    using floor_divide_of_int_eq [of n 60, where ?'a = real] by simp
  moreover have "0 \<le> (of_int n :: real) / of_int 60" using assms by simp
  ultimately have "trunc (of_int n / of_int 60) = n div 60"
    by (simp add: trunc_def)
  then show ?thesis by (simp add: js_rem_int_def minus_mult_div_eq_mod)
qed

lemma nat_toString_one: "n < 10 \<Longrightarrow> nat_toString n = [digit_char n]"
  by (subst nat_toString.simps) simp

lemma nat_toString_two: "n < 100 \<Longrightarrow> 10 \<le> n \<Longrightarrow> nat_toString n = two_digits n"
proof -
  assume a: "n < 100" "10 \<le> n"
  then have "n div 10 < 10" by simp
  then have "nat_toString (n div 10) = [digit_char (n div 10)]" by (rule nat_toString_one)
  with a show ?thesis by (subst nat_toString.simps) (simp add: two_digits_def)
qed

lemma addZeroFill_two_digits:
  assumes "0 \<le> v" "v < 100"
  shows "addZeroFill v = two_digits (nat v)"
proof (cases "v < 10")
  case True
  then show ?thesis using assms
    by (simp add: addZeroFill_def toString_def nat_toString_one two_digits_def Let_def digit_char_def)
next
  case False
  then have "nat_toString (nat v) = two_digits (nat v)"
    using assms by (intro nat_toString_two) auto
  then show ?thesis using assms False
    by (simp add: addZeroFill_def toString_def two_digits_def Let_def)
qed

lemma display_rounded:
  assumes "0 \<le> t"
  shows "returnAnimationDisplayTime t = (two_digits (rounded_hour t), two_digits (spec_minute t))"
proof -
  have n0: "0 \<le> Math_round t" using assms by (simp add: Math_round_def)
  have h: "parseInt (js_rem (of_int (Math_round t) / 60) 24) = (Math_round t div 60) mod 24"
    by (rule hour_value [OF n0])
  have m: "js_rem_int (Math_round t) 60 = Math_round t mod 60"
    by (rule minute_value [OF n0])
  have "addZeroFill ((Math_round t div 60) mod 24) = two_digits (nat ((Math_round t div 60) mod 24))"
    by (rule addZeroFill_two_digits) simp_all
  moreover have "addZeroFill (Math_round t mod 60) = two_digits (nat (Math_round t mod 60))"
    by (rule addZeroFill_two_digits) simp_all
  ultimately show ?thesis
    by (simp add: returnAnimationDisplayTime_def h m rounded_hour_def spec_minute_def Let_def)
qed

text \<open>
  C9, as the code has it. For every clock value \<open>t \<ge> 0\<close> the displayed reading is
  hour = floor(round(t) / 60) mod 24 and minute = round(t) mod 60, each a string of two
  decimal digits (zero-padded): the hour is taken from the rounded time, not from \<open>t\<close>.
\<close>

theorem display_time_rounded:
  assumes "0 \<le> t"
  shows "returnAnimationDisplayTime t = (two_digits (rounded_hour t), two_digits (spec_minute t))
     \<and> length (fst (returnAnimationDisplayTime t)) = 2
     \<and> length (snd (returnAnimationDisplayTime t)) = 2
     \<and> rounded_hour t < 24 \<and> spec_minute t < 60"
proof -
  have "rounded_hour t < 24" by (simp add: rounded_hour_def)
  moreover have "spec_minute t < 60" by (simp add: spec_minute_def)
  ultimately show ?thesis using display_rounded [OF assms] by (simp add: two_digits_def)
qed

theorem display_time_rounded_witness:
  "(0::real) \<le> 959 / 2 \<and> returnAnimationDisplayTime (959 / 2) = (''08'', ''00'')
   \<and> (0::real) \<le> 425 \<and> returnAnimationDisplayTime 425 = (''07'', ''05'')"
proof -
  have h1: "(0::real) \<le> 959 / 2" by simp
  have h2: "(0::real) \<le> 425" by simp
  show ?thesis
    using display_time_rounded [OF h1] display_time_rounded [OF h2]
    by (simp add: rounded_hour_def spec_minute_def Math_round_def two_digits_def digit_char_def)
qed

text \<open>At 479.5 minutes the code shows hour 08 (and minute 00); floor(t / 60) mod 24 is 7.\<close>

theorem display_hour_counterexample:
  "fst (returnAnimationDisplayTime (959 / 2)) = ''08'' \<and> two_digits (spec_hour (959 / 2)) = ''07''"
proof -
  have "(0::real) \<le> 959 / 2" by simp
  then have "returnAnimationDisplayTime (959 / 2)
      = (two_digits (rounded_hour (959 / 2)), two_digits (spec_minute (959 / 2)))"
    by (rule display_rounded)
  then show ?thesis
    by (simp add: rounded_hour_def spec_minute_def spec_hour_def Math_round_def two_digits_def
        digit_char_def)
qed

subsection \<open>Time range and clock\<close>

lemma Max_insert_max:
  fixes a b :: real
  assumes "finite A"
  shows "Max (insert (max a b) A) = max a (Max (insert b A))"
  using assms by (cases "A = {}") (simp_all add: max.assoc)

lemma foldl_scan_last:
  "foldl (\<lambda>maxT t. case t of None \<Rightarrow> maxT | Some tr \<Rightarrow> scan_last maxT (f tr)) m xs
     = Max (set (m # last_stamps (map f (present xs))))"
proof (induction xs arbitrary: m)
  case Nil
  then show ?case by simp
next
  case (Cons x xs)
  show ?case
  proof (cases x)
    case None
    then show ?thesis using Cons.IH [of m] by simp
  next
    case (Some tr)
    have fin: "finite (set (last_stamps (map f (present xs))))" by simp
    show ?thesis
    proof (cases "f tr")
      case None
      then show ?thesis using Some Cons.IH [of m] by (simp add: scan_last_def)
    next
      case Some2: (Some ts)
      show ?thesis
      proof (cases "ts \<noteq> [] \<and> is_number (last ts)")
        case False
        then have "scan_last m (f tr) = m"
          using Some2 by (cases "ts = []") (auto simp: scan_last_def Let_def last_conv_nth)
        then show ?thesis using Some Some2 False Cons.IH [of m] by auto
      next
        case True
        then have "scan_last m (f tr) = max m (the_num (last ts))"
          using Some2 by (auto simp: scan_last_def Let_def last_conv_nth max_def)
        moreover have "Max (insert m (insert (the_num (last ts)) (set (last_stamps (map f (present xs))))))
            = max m (Max (insert (the_num (last ts)) (set (last_stamps (map f (present xs))))))"
          by (rule Max_insert) simp_all
        ultimately show ?thesis using Some Some2 True Cons.IH [of "max m (the_num (last ts))"]
          by (simp add: Max_insert_max del: Max_insert)
      qed
    qed
  qed
qed

lemma dataMaxFromTrips_Max: "dataMaxFromTrips trip = Max (set (0 # trip_lasts trip))"
  by (cases trip) (auto simp: dataMaxFromTrips_def trip_lasts_def foldl_scan_last)

lemma dataMaxFromPassengers_Max: "dataMaxFromPassengers ps = Max (set (0 # passenger_lasts ps))"
  by (auto simp: dataMaxFromPassengers_def passenger_lasts_def foldl_scan_last)

lemma maxTime_Max:
  "maxTime trip ps = Max (set ((minTime + 60) # trip_lasts trip @ passenger_lasts ps))"
proof -
  have a: "max (minTime + 60) (Max (insert 0 A)) = Max (insert (minTime + 60) A)" if "finite A" for A
  proof (cases "A = {}")
    case True then show ?thesis by (simp add: minTime_def)
  next
    case False
    then show ?thesis using that by (simp add: minTime_def max.assoc [symmetric])
  qed
  let ?T = "set (trip_lasts trip)" and ?P = "set (passenger_lasts ps)"
  have "max (dataMaxFromTrips trip) (dataMaxFromPassengers ps) = Max (insert 0 (?T \<union> ?P))"
  proof -
    have "Max (insert 0 (?T \<union> ?P)) = Max (insert 0 ?T \<union> insert 0 ?P)" by simp
    also have "\<dots> = max (Max (insert 0 ?T)) (Max (insert 0 ?P))"
      by (rule Max_Un) simp_all
    finally show ?thesis by (simp add: dataMaxFromTrips_Max dataMaxFromPassengers_Max)
  qed
  then have c: "max (minTime + 60) (max (dataMaxFromTrips trip) (dataMaxFromPassengers ps))
      = Max (insert (minTime + 60) (?T \<union> ?P))"
    using a [of "?T \<union> ?P"] by simp
  have "minTime < max (minTime + 60) (max (dataMaxFromTrips trip) (dataMaxFromPassengers ps))"
    by (simp add: less_max_iff_disj)
  then show ?thesis using c by (simp add: maxTime_def Let_def)
qed

lemma clock_run_snoc: "clock_run maxT (evs @ [e]) = clock_step maxT (clock_run maxT evs) e"
  by (simp add: clock_run_def)

lemma clock_bounds:
  assumes "minTime \<le> maxT" and "\<forall>v. Seek v \<in> set evs \<longrightarrow> minTime \<le> v \<and> v \<le> maxT"
  shows "minTime \<le> clock_run maxT evs \<and> clock_run maxT evs \<le> maxT + 1 / 200"
  using assms(2)
proof (induction evs rule: rev_induct)
  case Nil
  then show ?case using assms(1) by (simp add: clock_run_def)
next
  case (snoc e evs)
  then have IH: "minTime \<le> clock_run maxT evs \<and> clock_run maxT evs \<le> maxT + 1 / 200" by simp
  show ?case
  proof (cases e)
    case Tick
    then show ?thesis using IH assms(1)
      by (simp add: clock_run_snoc returnAnimationTime_def animationSpeed_def)
  next
    case (Seek v)
    then have "minTime \<le> v \<and> v \<le> maxT" using snoc.prems by simp
    then show ?thesis using Seek by (simp add: clock_run_snoc)
  qed
qed

lemma ticks_480:
  "n \<le> 12001 \<Longrightarrow> clock_run 480 (replicate n Tick) = 420 + real n / 200"
proof (induction n)
  case 0
  then show ?case by (simp add: clock_run_def minTime_def)
next
  case (Suc n)
  then have "clock_run 480 (replicate n Tick) = 420 + real n / 200" by simp
  moreover have "real n / 200 \<le> 60" using Suc.prems by simp
  moreover have "replicate (Suc n) Tick = replicate n Tick @ [Tick]"
    by (simp add: replicate_append_same)
  ultimately show ?case
    by (simp add: clock_run_snoc returnAnimationTime_def
        animationSpeed_def add_divide_distrib del: replicate_Suc)
qed

text \<open>
  C3, as the code has it. The upper bound of the clock and slider is the maximum of
  domainMin + 60, of the numeric last timestamps of the trips and of the numeric last
  timestamps of the passenger events (entries without timestamps are ignored). Where no
  passenger event has a numeric last timestamp it is max(domainMin + 60, domainMax) with
  domainMax taken over the trips; for collections without any numeric last timestamp it
  is domainMin + 60; it is never below domainMin + 60.
\<close>

theorem maxTime_range:
  "maxTime trip ps = Max (set ((minTime + 60) # trip_lasts trip @ passenger_lasts ps))
   \<and> (passenger_lasts ps = [] \<longrightarrow> maxTime trip ps = Max (set ((minTime + 60) # trip_lasts trip)))
   \<and> (trip_lasts trip = [] \<and> passenger_lasts ps = [] \<longrightarrow> maxTime trip ps = minTime + 60)
   \<and> minTime + 60 \<le> maxTime trip ps"
proof -
  have m: "maxTime trip ps = Max (set ((minTime + 60) # trip_lasts trip @ passenger_lasts ps))"
    by (rule maxTime_Max)
  have "minTime + 60 \<le> Max (set ((minTime + 60) # trip_lasts trip @ passenger_lasts ps))"
    by (rule Max_ge) simp_all
  then show ?thesis using m by auto
qed

theorem maxTime_range_witness:
  "maxTime (Some []) [] = minTime + 60
   \<and> maxTime (Some [Some trip_b]) [] = minTime + 60
   \<and> maxTime (Some [Some trip_c]) [] = minTime + 500
   \<and> maxTime (Some [Some trip_c]) [Some passenger_late] = 1000"
  using maxTime_range [of "Some []" "[]"] maxTime_range [of "Some [Some trip_b]" "[]"]
    maxTime_range [of "Some [Some trip_c]" "[]"]
    maxTime_range [of "Some [Some trip_c]" "[Some passenger_late]"]
  by (simp add: trip_lasts_def passenger_lasts_def trip_b_def trip_c_def passenger_late_def
      minTime_def)

text \<open>A passenger event with last timestamp 1000 and no trip at all: the bound is 1000,
  not domainMin + 60 = 480.\<close>

theorem maxTime_trips_only_counterexample:
  "trip_lasts (Some []) = [] \<and> minTime + 60 = 480
   \<and> maxTime (Some []) [Some passenger_late] = 1000"
  by (simp add: maxTime_Max trip_lasts_def passenger_lasts_def passenger_late_def minTime_def)

text \<open>
  C7, as the code has it. The clock starts at domainMin; a tick from a value above the
  upper bound resets it to exactly domainMin (it loops, nothing of the overshoot is kept),
  a tick from any other value adds the step 0.005. With seeks inside [domainMin, max],
  the value a frame observes is never below domainMin and never above max + 0.005: it can
  lie above the upper bound, by at most one step, for the one frame before the reset.
\<close>

theorem clock_wraps:
  assumes "minTime \<le> maxT" and "\<forall>v. Seek v \<in> set evs \<longrightarrow> minTime \<le> v \<and> v \<le> maxT"
  shows "minTime \<le> clock_run maxT evs \<and> clock_run maxT evs \<le> maxT + 1 / 200
     \<and> (maxT < clock_run maxT evs \<longrightarrow> clock_run maxT (evs @ [Tick]) = minTime)
     \<and> (clock_run maxT evs \<le> maxT \<longrightarrow>
          clock_run maxT (evs @ [Tick]) = clock_run maxT evs + 1 / 200)"
  using clock_bounds [OF assms]
  by (simp add: clock_run_snoc returnAnimationTime_def animationSpeed_def)

theorem clock_wraps_witness:
  "minTime \<le> 480 \<and> clock_run 480 [Seek 480] = 480
   \<and> clock_run 480 ([Seek 480] @ [Tick]) = 480 + 1 / 200
   \<and> clock_run 480 [Seek 480, Tick] \<le> 480 + 1 / 200
   \<and> clock_run 480 ([Seek 480, Tick] @ [Tick]) = minTime"
proof -
  have h1: "minTime \<le> 480" by (simp add: minTime_def)
  have h2: "\<forall>v. Seek v \<in> set [Seek 480, Tick] \<longrightarrow> minTime \<le> v \<and> v \<le> 480"
    by (simp add: minTime_def)
  have h3: "\<forall>v. Seek v \<in> set [Seek 480] \<longrightarrow> minTime \<le> v \<and> v \<le> 480"
    by (simp add: minTime_def)
  have v: "clock_run 480 [Seek 480] = 480" by (simp add: clock_run_def)
  have w: "clock_run 480 [Seek 480, Tick] = 480 + 1 / 200"
    by (simp add: clock_run_def returnAnimationTime_def animationSpeed_def)
  show ?thesis using clock_wraps [OF h1 h2] clock_wraps [OF h1 h3] h1 v w by simp
qed

text \<open>With the upper bound 480 of an empty dataset, the frame after 12001 ticks observes
  480.005.\<close>

theorem clock_above_bound_counterexample:
  "maxTime (Some []) [] = 480 \<and> clock_run 480 (replicate 12001 Tick) = 480 + 1 / 200
   \<and> \<not> clock_run 480 (replicate 12001 Tick) \<le> 480"
proof -
  have "clock_run 480 (replicate 12001 Tick) = 420 + real 12001 / 200"
    by (rule ticks_480) simp
  then show ?thesis
    by (simp add: maxTime_Max trip_lasts_def passenger_lasts_def minTime_def)
qed

subsection \<open>Passengers\<close>

lemma visiblePassengers_append:
  "visiblePassengers (xs @ ys) t = visiblePassengers xs t @ visiblePassengers ys t"
  by (induction xs) auto

lemma build_tripByPid_find:
  "build_tripByPid xs m k =
     (case m k of Some t \<Rightarrow> Some t | None \<Rightarrow> find (\<lambda>t. passenger_id t = Some k) (present xs))"
proof (induction xs m rule: build_tripByPid.induct)
  case (1 m)
  then show ?case by (simp split: option.splits)
next
  case (2 ts m)
  then show ?case by (simp split: option.splits)
next
  case (3 t ts m)
  then show ?case by (auto split: option.splits)
qed

lemma tripByPid_first_trip: "tripByPid trip k = first_trip trip k"
  by (cases trip) (auto simp: tripByPid_def first_trip_def build_tripByPid_find)

lemma first_route_index_Some:
  "first_route_index rt px = Some i \<longleftrightarrow>
     i < length rt \<and> rt ! i = Some px \<and> (\<forall>j<i. rt ! j \<noteq> Some px)"
proof (induction rt arbitrary: i)
  case Nil
  then show ?case by simp
next
  case (Cons e es)
  show ?case
  proof (cases "e = Some px")
    case True
    then show ?thesis by (cases i) auto
  next
    case False
    show ?thesis
    proof (cases i)
      case 0
      then show ?thesis using False by simp
    next
      case (Suc n)
      have "(\<forall>j<Suc n. (e # es) ! j \<noteq> Some px) \<longleftrightarrow> (\<forall>j<n. es ! j \<noteq> Some px)"
        using False by (auto simp: less_Suc_eq_0_disj)
      then show ?thesis using False Suc Cons.IH [of n] by auto
    qed
  qed
qed

lemma first_route_index_None: "first_route_index rt px = None \<longleftrightarrow> Some px \<notin> set rt"
  by (induction rt) auto

lemma scan_route_index:
  "scan_route rt i ts px =
     (case first_route_index rt px of None \<Rightarrow> None
      | Some j \<Rightarrow> if is_number (js_index ts (i + j)) then Some (the_num (js_index ts (i + j))) else None)"
proof (induction rt arbitrary: i)
  case Nil
  then show ?case by simp
next
  case (Cons e es)
  show ?case
  proof (cases e)
    case None
    then show ?thesis using Cons.IH [of "Suc i"] by (simp split: option.splits)
  next
    case (Some q)
    then show ?thesis using Cons.IH [of "Suc i"]
      by (cases q; cases px) (auto simp: Let_def split: option.splits)
  qed
qed

lemma scan_route_hit:
  assumes "i < length rt" "rt ! i = Some px" "\<forall>j<i. rt ! j \<noteq> Some px"
    and "i < length ts" "ts ! i = Num v"
  shows "scan_route rt 0 ts px = Some v"
proof -
  have "first_route_index rt px = Some i" using assms by (simp add: first_route_index_Some)
  then show ?thesis using assms by (simp add: scan_route_index js_index_def)
qed

lemma scan_route_miss: "Some px \<notin> set rt \<Longrightarrow> scan_route rt 0 ts px = None"
  by (simp add: scan_route_index first_route_index_None [symmetric])

lemma info_call: "call (passenger_info m p) = recorded_call p"
  by (auto simp: passenger_info_def recorded_call_def Let_def split: option.splits list.splits)

lemma info_pickupLoc: "pickupLoc (passenger_info m p) = recorded_pickup p"
  by (simp add: passenger_info_def recorded_pickup_def Let_def)

lemma info_matched:
  "(case p_passenger_id p of None \<Rightarrow> None | Some pid \<Rightarrow> tripByPid trip pid) = matched_trip trip p"
  by (simp add: matched_trip_def tripByPid_first_trip split: option.splits)

lemma info_call_raw:
  "(if (case p_timestamp p of None \<Rightarrow> False | Some ts \<Rightarrow> 1 \<le> length ts)
    then the (p_timestamp p) ! 0 else js_null) = recorded_call p"
  by (auto simp: recorded_call_def split: option.splits list.splits)

lemma info_pickupTime:
  "pickupTime (passenger_info (tripByPid trip) p) =
     (case (case (matched_trip trip p, recorded_pickup p) of
              (Some tr, Some px) \<Rightarrow>
                (case (route tr, timestamp tr) of
                   (Some rt, Some ts) \<Rightarrow> scan_route rt 0 ts px
                 | _ \<Rightarrow> None)
            | _ \<Rightarrow> None) of
        Some v \<Rightarrow> Num v
      | None \<Rightarrow> fallback_time p)"
  unfolding passenger_info_def Let_def info_matched info_call_raw fallback_time_def
    recorded_pickup_def
  by simp

lemma pickup_no_route_match:
  "no_route_match trip p \<Longrightarrow> pickupTime (passenger_info (tripByPid trip) p) = fallback_time p"
  by (auto simp: info_pickupTime no_route_match_def scan_route_miss split: option.splits)

lemma pickup_first_index:
  assumes "matched_trip trip p = Some tr" "route tr = Some rt" "timestamp tr = Some ts"
    "recorded_pickup p = Some px" "i < length rt" "rt ! i = Some px" "\<forall>j<i. rt ! j \<noteq> Some px"
  shows "pickupTime (passenger_info (tripByPid trip) p) =
     (if i < length ts \<and> is_number (ts ! i) then ts ! i else fallback_time p)"
proof -
  have f: "first_route_index rt px = Some i" using assms by (simp add: first_route_index_Some)
  have "scan_route rt 0 ts px =
     (if is_number (js_index ts i) then Some (the_num (js_index ts i)) else None)"
    by (simp add: scan_route_index f)
  moreover have "is_number v \<Longrightarrow> Num (the_num v) = v" for v by (cases v) simp_all
  ultimately show ?thesis using assms(1-4)
    by (auto simp: info_pickupTime js_index_def js_undefined_def)
qed

text \<open>
  C2. A passenger info with numeric call \<open>c\<close>, numeric pickup time \<open>p\<close> and a pickup
  location contributes to the visible passengers at time \<open>t\<close> exactly when
  \<open>c \<le> t \<le> p\<close> (both ends included), and what it contributes carries the wait
  \<open>p - c\<close>, whatever \<open>t\<close> is; the other infos contribute as they do without it.
\<close>

theorem visible_window:
  assumes "call info = Num c" and "pickupTime info = Num p" and "pickupLoc info = Some l"
  shows "visiblePassengers (xs @ info # ys) t =
           visiblePassengers xs t
           @ (if c \<le> t \<and> t \<le> p then [\<lparr>location = Some l, wait = p - c\<rparr>] else [])
           @ visiblePassengers ys t"
  using assms by (simp add: visiblePassengers_append)

theorem visible_window_witness:
  "call info_w = Num 100 \<and> pickupTime info_w = Num 130 \<and> pickupLoc info_w = Some (1, 2)
   \<and> visiblePassengers [info_w] 100 = [\<lparr>location = Some (1, 2), wait = 30\<rparr>]
   \<and> visiblePassengers [info_w] 120 = [\<lparr>location = Some (1, 2), wait = 30\<rparr>]
   \<and> visiblePassengers [info_w] 130 = [\<lparr>location = Some (1, 2), wait = 30\<rparr>]
   \<and> visiblePassengers [info_w] 99 = [] \<and> visiblePassengers [info_w] 131 = []"
proof -
  have h1: "call info_w = Num 100" by (simp add: info_w_def)
  have h2: "pickupTime info_w = Num 130" by (simp add: info_w_def)
  have h3: "pickupLoc info_w = Some (1, 2)" by (simp add: info_w_def)
  show ?thesis
    using visible_window [OF h1 h2 h3, of "[]" "[]" 100]
      visible_window [OF h1 h2 h3, of "[]" "[]" 120]
      visible_window [OF h1 h2 h3, of "[]" "[]" 130]
      visible_window [OF h1 h2 h3, of "[]" "[]" 99]
      visible_window [OF h1 h2 h3, of "[]" "[]" 131] h1 h2 h3
    by simp
qed

text \<open>
  C5, as the code has it. For every passenger, the call time is the first timestamp of the
  event (\<^verbatim>\<open>null\<close> without one), the pickup location is \<open>loc[0]\<close>, else \<open>location\<close>,
  and the matched trip is the first trip of the collection whose \<open>passenger_id\<close> equals
  the passenger's (none for a passenger without \<open>passenger_id\<close>). The pickup time is
  given by the first satisfied rule: (a) if \<open>i\<close> is the first index of the matched trip's
  route whose point equals the pickup location in both coordinates and the timestamp at
  \<open>i\<close> is a number, it is that timestamp; (b) otherwise, that is, if no route point
  equals the location or the timestamp at \<open>i\<close> is missing or not a number, and the call
  time and \<open>wait_min\<close> are numbers, it is their sum; (c) otherwise it is the call time.
  Each passenger that is not \<^verbatim>\<open>null\<close> is resolved in this way on its own.
\<close>

theorem pickup_time_resolution:
  "call (passenger_info (tripByPid trip) p) = recorded_call p
   \<and> pickupLoc (passenger_info (tripByPid trip) p) = recorded_pickup p
   \<and> passengerInfos trip ps = map (passenger_info (tripByPid trip)) (present ps)
   \<and> (p_passenger_id p = Some k \<longrightarrow>
          tripByPid trip k = first_trip trip k \<and> matched_trip trip p = first_trip trip k)
   \<and> (p_passenger_id p = None \<longrightarrow> matched_trip trip p = None)
   \<and> (matched_trip trip p = Some tr \<and> route tr = Some rt \<and> timestamp tr = Some ts
        \<and> recorded_pickup p = Some px
        \<and> i < length rt \<and> rt ! i = Some px \<and> (\<forall>j<i. rt ! j \<noteq> Some px)
       \<longrightarrow> (i < length ts \<and> is_number (ts ! i)
              \<longrightarrow> pickupTime (passenger_info (tripByPid trip) p) = ts ! i)
           \<and> (\<not> (i < length ts \<and> is_number (ts ! i))
              \<longrightarrow> pickupTime (passenger_info (tripByPid trip) p) = fallback_time p))
   \<and> (no_route_match trip p
       \<longrightarrow> pickupTime (passenger_info (tripByPid trip) p) = fallback_time p)
   \<and> (is_number (recorded_call p) \<and> is_number (wait_min p)
       \<longrightarrow> fallback_time p = Num (the_num (recorded_call p) + the_num (wait_min p)))
   \<and> (\<not> (is_number (recorded_call p) \<and> is_number (wait_min p))
       \<longrightarrow> fallback_time p = recorded_call p)"
proof -
  have c1: "call (passenger_info (tripByPid trip) p) = recorded_call p"
    by (rule info_call)
  have c2: "pickupLoc (passenger_info (tripByPid trip) p) = recorded_pickup p"
    by (rule info_pickupLoc)
  have c3: "passengerInfos trip ps = map (passenger_info (tripByPid trip)) (present ps)"
    by (cases ps) (simp_all add: passengerInfos_def)
  have c4: "p_passenger_id p = Some k \<longrightarrow>
          tripByPid trip k = first_trip trip k \<and> matched_trip trip p = first_trip trip k"
    by (simp add: tripByPid_first_trip matched_trip_def)
  have c5: "p_passenger_id p = None \<longrightarrow> matched_trip trip p = None"
    by (simp add: matched_trip_def)
  have c6: "matched_trip trip p = Some tr \<and> route tr = Some rt \<and> timestamp tr = Some ts
        \<and> recorded_pickup p = Some px
        \<and> i < length rt \<and> rt ! i = Some px \<and> (\<forall>j<i. rt ! j \<noteq> Some px)
       \<longrightarrow> (i < length ts \<and> is_number (ts ! i)
              \<longrightarrow> pickupTime (passenger_info (tripByPid trip) p) = ts ! i)
           \<and> (\<not> (i < length ts \<and> is_number (ts ! i))
              \<longrightarrow> pickupTime (passenger_info (tripByPid trip) p) = fallback_time p)"
  proof (intro impI)
    assume a: "matched_trip trip p = Some tr \<and> route tr = Some rt \<and> timestamp tr = Some ts
        \<and> recorded_pickup p = Some px
        \<and> i < length rt \<and> rt ! i = Some px \<and> (\<forall>j<i. rt ! j \<noteq> Some px)"
    have "pickupTime (passenger_info (tripByPid trip) p) =
       (if i < length ts \<and> is_number (ts ! i) then ts ! i else fallback_time p)"
      by (rule pickup_first_index [of trip p tr rt ts px i]) (use a in simp_all)
    then show "(i < length ts \<and> is_number (ts ! i)
              \<longrightarrow> pickupTime (passenger_info (tripByPid trip) p) = ts ! i)
           \<and> (\<not> (i < length ts \<and> is_number (ts ! i))
              \<longrightarrow> pickupTime (passenger_info (tripByPid trip) p) = fallback_time p)"
      by simp
  qed
  have c7: "no_route_match trip p
       \<longrightarrow> pickupTime (passenger_info (tripByPid trip) p) = fallback_time p"
    using pickup_no_route_match [of trip p] by blast
  have c8: "is_number (recorded_call p) \<and> is_number (wait_min p)
       \<longrightarrow> fallback_time p = Num (the_num (recorded_call p) + the_num (wait_min p))"
    by (simp add: fallback_time_def)
  have c9: "\<not> (is_number (recorded_call p) \<and> is_number (wait_min p))
       \<longrightarrow> fallback_time p = recorded_call p"
    by (simp add: fallback_time_def)
  from c1 c2 c3 c4 c5 c6 c7 c8 c9 show ?thesis by blast
qed

theorem pickup_time_resolution_witness:
  "call (passenger_info (tripByPid (Some [Some trip_a, Some trip_a2])) passenger_w) = Num 3
   \<and> pickupLoc (passenger_info (tripByPid (Some [Some trip_a, Some trip_a2])) passenger_w)
        = Some (1, 1)
   \<and> first_trip (Some [Some trip_a, Some trip_a2]) (IdNum 1) = Some trip_a
   \<and> pickupTime (passenger_info (tripByPid (Some [Some trip_a, Some trip_a2])) passenger_w) = Num 10
   \<and> pickupLoc (passenger_info (tripByPid (Some [Some trip_a, Some trip_a2])) passenger_l)
        = Some (1, 1)
   \<and> pickupTime (passenger_info (tripByPid (Some [Some trip_a, Some trip_a2])) passenger_l) = Num 10
   \<and> pickupTime (passenger_info (tripByPid (Some [Some trip_a, Some trip_a2])) passenger_x) = Num 8
   \<and> pickupTime (passenger_info (tripByPid (Some [Some trip_a, Some trip_a2])) passenger_y) = Num 3
   \<and> pickupTime (passenger_info (tripByPid (Some [Some trip_gap])) passenger_w) = Num 8
   \<and> matched_trip (Some [Some trip_noid]) passenger_n = None
   \<and> pickupTime (passenger_info (tripByPid (Some [Some trip_noid])) passenger_n) = Num 8
   \<and> passengerInfos (Some [Some trip_a]) [None, Some passenger_w]
        = [\<lparr>call = Num 3, pickupTime = Num 10, pickupLoc = Some (1, 1)\<rparr>]"
  using pickup_time_resolution [where trip = "Some [Some trip_a, Some trip_a2]"
      and p = passenger_w and k = "IdNum 1"
      and tr = trip_a and rt = "[Some (0, 0), Some (1, 1), Some (2, 2)]"
      and ts = "[Num 0, Num 10, Num 20]" and px = "(1, 1)" and i = 1]
    pickup_time_resolution [where trip = "Some [Some trip_a, Some trip_a2]"
      and p = passenger_l and k = "IdNum 1"
      and tr = trip_a and rt = "[Some (0, 0), Some (1, 1), Some (2, 2)]"
      and ts = "[Num 0, Num 10, Num 20]" and px = "(1, 1)" and i = 1]
    pickup_time_resolution [where trip = "Some [Some trip_a, Some trip_a2]"
      and p = passenger_x and k = "IdNum 1"]
    pickup_time_resolution [where trip = "Some [Some trip_a, Some trip_a2]"
      and p = passenger_y and k = "IdNum 1"]
    pickup_time_resolution [where trip = "Some [Some trip_gap]"
      and p = passenger_w and k = "IdNum 1"
      and tr = trip_gap and rt = "[Some (0, 0), Some (1, 1), Some (2, 2)]"
      and ts = "[Num 0, js_null, Num 20]" and px = "(1, 1)" and i = 1]
    pickup_time_resolution [where trip = "Some [Some trip_noid]" and p = passenger_n]
    pickup_time_resolution [where trip = "Some [Some trip_a]" and p = passenger_w
      and ps = "[None, Some passenger_w]"]
  by (simp add: tripByPid_def first_trip_def passenger_info_def no_route_match_def
      matched_trip_def recorded_call_def recorded_pickup_def fallback_time_def
      trip_a_def trip_a2_def trip_gap_def trip_noid_def
      passenger_w_def passenger_x_def passenger_y_def passenger_l_def passenger_n_def
      js_index_def js_undefined_def js_null_def Let_def)

text \<open>The route point (1, 1) of the matched trip equals the pickup location, at index 1,
  and the timestamp at index 1 is \<^verbatim>\<open>null\<close>: the pickup time is call + wait_min = 8, not
  the timestamp at that index.\<close>

theorem pickup_time_at_match_counterexample:
  "p_passenger_id passenger_w = Some (IdNum 1) \<and> passenger_id trip_gap = Some (IdNum 1)
   \<and> route trip_gap = Some [Some (0, 0), Some (1, 1), Some (2, 2)]
   \<and> timestamp trip_gap = Some [Num 0, js_null, Num 20]
   \<and> pickupLoc (passenger_info (tripByPid (Some [Some trip_gap])) passenger_w) = Some (1, 1)
   \<and> pickupTime (passenger_info (tripByPid (Some [Some trip_gap])) passenger_w) = Num 8
   \<and> Num 8 \<noteq> js_null"
  by (simp add: tripByPid_def passenger_info_def trip_gap_def passenger_w_def
      js_index_def js_undefined_def js_null_def Let_def)

subsection \<open>Position of the vehicle\<close>

lemma read_at_nat: "n < length xs \<Longrightarrow> read_at xs (int n) = Inr (xs ! n)"
  by (simp add: read_at_def)

lemma segment_test_hit:
  "Suc k < length ts \<Longrightarrow> segment_test ts time (int k) = Inr (hit ts time k)"
proof -
  assume a: "Suc k < length ts"
  then have "read_at ts (int k) = Inr (ts ! k)" by (simp add: read_at_nat)
  moreover have "read_at ts (int k + 1) = Inr (ts ! Suc k)"
    using a read_at_nat [of "Suc k" ts] by (simp add: add.commute)
  ultimately show ?thesis by (auto simp: segment_test_def hit_def)
qed

lemma read_at_Suc: "Suc n < length xs \<Longrightarrow> read_at xs (1 + int n) = Inr (xs ! Suc n)"
  using read_at_nat [of "Suc n" xs] by simp

lemma read_last: "xs \<noteq> [] \<Longrightarrow> read_at xs (int (length xs) - 1) = Inr (last xs)"
  by (cases xs rule: rev_cases) (simp_all add: read_at_def)

lemma segment_loop_step:
  assumes "Suc k < length ts"
  shows "segment_loop ts time (int k) idx =
     (if hit ts time k then Inr (int k)
      else segment_loop ts time (int (Suc k)) (if js_ge time (last ts) then int (length ts) - 2 else idx))"
proof -
  have ne: "ts \<noteq> []" using assms by auto
  have c: "int k < int (length ts) - 1" using assms by simp
  show ?thesis
    by (subst segment_loop.simps) (simp add: c segment_test_hit [OF assms] read_last [OF ne] add.commute)
qed

lemma segment_loop_done:
  "length ts \<le> Suc k \<Longrightarrow> segment_loop ts time (int k) idx = Inr idx"
  by (subst segment_loop.simps) simp

lemma segment_loop_no_hit:
  assumes "\<forall>j. k \<le> j \<and> Suc j < length ts \<longrightarrow> \<not> hit ts time j"
  shows "segment_loop ts time (int k) idx =
     Inr (if Suc k < length ts \<and> js_ge time (last ts) then int (length ts) - 2 else idx)"
  using assms
proof (induction "length ts - k" arbitrary: k idx)
  case 0
  then show ?case by (simp add: segment_loop_done)
next
  case (Suc n)
  show ?case
  proof (cases "Suc k < length ts")
    case False
    then show ?thesis by (simp add: segment_loop_done)
  next
    case True
    have nh: "\<not> hit ts time k" using Suc.prems True by simp
    have n: "n = length ts - Suc k" using Suc.hyps(2) by simp
    have rest: "\<forall>j. Suc k \<le> j \<and> Suc j < length ts \<longrightarrow> \<not> hit ts time j"
      using Suc.prems by simp
    show ?thesis
      using Suc.hyps(1) [OF n rest] True nh
      by (simp add: segment_loop_step [OF True])
  qed
qed

lemma segment_loop_first_hit:
  assumes "k \<le> j" "Suc j < length ts" "hit ts time j"
    and "\<forall>i. k \<le> i \<and> i < j \<longrightarrow> \<not> hit ts time i"
  shows "segment_loop ts time (int k) idx = Inr (int j)"
  using assms
proof (induction "j - k" arbitrary: k idx)
  case 0
  then have "k = j" by simp
  then show ?case using 0 by (simp add: segment_loop_step)
next
  case (Suc n)
  then have lt: "k < j" by simp
  then have kl: "Suc k < length ts" using Suc.prems by simp
  have nh: "\<not> hit ts time k" using Suc.prems lt by simp
  have n: "n = j - Suc k" using Suc.hyps(2) by simp
  have "segment_loop ts time (int (Suc k)) idx' = Inr (int j)" for idx'
    using Suc.hyps(1) [OF n] Suc.prems lt by simp
  then show ?case using nh by (simp add: segment_loop_step [OF kl])
qed

lemma segment_loop_range:
  assumes "2 \<le> length ts" "0 \<le> idx" "idx \<le> int (length ts) - 2"
  shows "\<exists>r. segment_loop ts time (int k) idx = Inr (int r) \<and> Suc r < length ts"
proof (cases "\<exists>j. k \<le> j \<and> Suc j < length ts \<and> hit ts time j")
  case True
  define j where "j = (LEAST j. k \<le> j \<and> Suc j < length ts \<and> hit ts time j)"
  have p: "k \<le> j \<and> Suc j < length ts \<and> hit ts time j"
    unfolding j_def using True by (rule LeastI_ex)
  have m: "\<forall>i. k \<le> i \<and> i < j \<longrightarrow> \<not> hit ts time i"
  proof (intro allI impI)
    fix i assume i: "k \<le> i \<and> i < j"
    show "\<not> hit ts time i"
    proof
      assume "hit ts time i"
      then have "k \<le> i \<and> Suc i < length ts \<and> hit ts time i" using i p by simp
      then have "j \<le> i" unfolding j_def by (rule Least_le)
      then show False using i by simp
    qed
  qed
  have "segment_loop ts time (int k) idx = Inr (int j)"
    using p m by (intro segment_loop_first_hit) auto
  then show ?thesis using p by blast
next
  case False
  then have "segment_loop ts time (int k) idx =
     Inr (if Suc k < length ts \<and> js_ge time (last ts) then int (length ts) - 2 else idx)"
    by (intro segment_loop_no_hit) auto
  moreover have "\<exists>r. int (length ts) - 2 = int r \<and> Suc r < length ts"
    using assms(1) by (intro exI [of _ "length ts - 2"]) auto
  moreover have "\<exists>r. idx = int r \<and> Suc r < length ts"
    using assms by (intro exI [of _ "nat idx"]) auto
  ultimately show ?thesis by auto
qed

lemma clamp_index_range:
  "0 < n \<Longrightarrow> \<exists>m. clamp_index i n = int m \<and> m < n"
  by (intro exI [of _ "nat (clamp_index i n)"]) (auto simp: clamp_index_def)

lemma clamp_index_id: "m < n \<Longrightarrow> clamp_index (int m) n = int m"
  by (auto simp: clamp_index_def)

lemma interpolate_blend:
  assumes "2 \<le> length rt" "2 \<le> length ts"
  shows "\<exists>i j i' j'. i < length rt \<and> j < length rt \<and> i' < length ts \<and> j' < length ts
     \<and> interpolate rt ts time = blend (rt ! i) (rt ! j) (ts ! i') (ts ! j') time"
proof -
  have pos: "0 < length rt" "0 < length ts" using assms by linarith+
  have "0 \<le> int (length ts) - 2" using assms(2) by simp
  then have "\<exists>r. segment_loop ts time (int 0) 0 = Inr (int r) \<and> Suc r < length ts"
    by (intro segment_loop_range assms) simp_all
  then obtain r where r: "segment_loop ts time 0 0 = Inr r" by auto
  obtain i where i: "clamp_index r (length rt) = int i" "i < length rt"
    using clamp_index_range [OF pos(1), of r] by blast
  obtain j where j: "clamp_index (r + 1) (length rt) = int j" "j < length rt"
    using clamp_index_range [OF pos(1), of "r + 1"] by blast
  obtain i' where i': "clamp_index r (length ts) = int i'" "i' < length ts"
    using clamp_index_range [OF pos(2), of r] by blast
  obtain j' where j': "clamp_index (r + 1) (length ts) = int j'" "j' < length ts"
    using clamp_index_range [OF pos(2), of "r + 1"] by blast
  have "interpolate rt ts time = blend (rt ! i) (rt ! j) (ts ! i') (ts ! j') time"
    by (simp add: interpolate_def r i(1) j(1) i'(1) j'(1) read_at_nat [OF i(2)]
        read_at_nat [OF j(2)] read_at_nat [OF i'(2)] read_at_nat [OF j'(2)])
  then show ?thesis using i(2) j(2) i'(2) j'(2) by blast
qed

lemma blend_no_undefined: "blend a b t0 t1 time \<noteq> Inl UndefinedRead"
  by (auto simp: blend_def Let_def split: option.splits)

lemma interpolate_index:
  assumes "segment_loop ts time 0 0 = Inr (int r)" "Suc r < length ts" "length rt = length ts"
  shows "interpolate rt ts time = blend (rt ! r) (rt ! Suc r) (ts ! r) (ts ! Suc r) time"
proof -
  have "clamp_index (int r + 1) (length ts) = int (Suc r)"
    using clamp_index_id [of "Suc r" "length ts"] assms by (simp add: add.commute)
  then show ?thesis using assms
    by (simp add: interpolate_def clamp_index_id read_at_nat read_at_Suc)
qed

lemma blend_sorted:
  assumes "is_number t0" "is_number t1" "the_num t0 \<le> the_num t1"
  shows "blend (Some pa) (Some pb) t0 t1 t = Inr (Some (lerp pa pb (alpha_of (the_num t0) (the_num t1) t)))"
proof (cases "the_num t1 = the_num t0")
  case True
  then show ?thesis using assms by (simp add: blend_def lerp_def alpha_of_def)
next
  case False
  then have "the_num t0 < the_num t1" using assms by simp
  then show ?thesis using assms by (simp add: blend_def lerp_def alpha_of_def Let_def)
qed

lemma wf_stamp_mono:
  assumes "well_formed_path rt ts" "i \<le> j" "j < length ts"
  shows "stamp ts i \<le> stamp ts j"
proof -
  have "sorted (map the_num ts)" using assms by (simp add: well_formed_path_def)
  then have "map the_num ts ! i \<le> map the_num ts ! j"
    using assms by (intro sorted_nth_mono) auto
  then show ?thesis using assms by (simp add: stamp_def)
qed

lemma wf_number: "well_formed_path rt ts \<Longrightarrow> k < length ts \<Longrightarrow> is_number (ts ! k)"
  by (simp add: well_formed_path_def list_all_length)

lemma wf_point: "well_formed_path rt ts \<Longrightarrow> k < length ts \<Longrightarrow> \<exists>p. rt ! k = Some p"
  by (auto simp: well_formed_path_def list_all_length)

lemma wf_last: "well_formed_path rt ts \<Longrightarrow> the_num (last ts) = stamp ts (length ts - 1)"
  by (cases "ts = []") (auto simp: well_formed_path_def stamp_def last_conv_nth)

lemma wf_hit:
  "well_formed_path rt ts \<Longrightarrow> Suc k < length ts \<Longrightarrow>
     hit ts t k \<longleftrightarrow> stamp ts k \<le> t \<and> t < stamp ts (Suc k)"
  by (simp add: hit_def stamp_def wf_number)

lemma wf_blend:
  assumes "well_formed_path rt ts" "Suc k < length ts"
  shows "blend (rt ! k) (rt ! Suc k) (ts ! k) (ts ! Suc k) t = Inr (segment_position rt ts k t)"
proof -
  obtain pa pb where a: "rt ! k = Some pa" "rt ! Suc k = Some pb"
    using wf_point [OF assms(1), of k] wf_point [OF assms(1), of "Suc k"] assms(2) by auto
  have n: "is_number (ts ! k)" "is_number (ts ! Suc k)" using assms by (simp_all add: wf_number)
  have m: "the_num (ts ! k) \<le> the_num (ts ! Suc k)"
    using wf_stamp_mono [OF assms(1), of k "Suc k"] assms(2) by (simp add: stamp_def)
  show ?thesis
    by (simp add: a blend_sorted [OF n m] segment_position_def stamp_def)
qed

lemma wf_in_segment:
  assumes wf: "well_formed_path rt ts" and k: "Suc k < length ts"
    and t: "stamp ts k \<le> t" "t < stamp ts (Suc k)"
  shows "interpolate rt ts t = Inr (segment_position rt ts k t)"
proof -
  have h: "hit ts t k" using wf k t by (simp add: wf_hit)
  have "\<not> hit ts t i" if "i < k" for i
  proof -
    have "stamp ts (Suc i) \<le> stamp ts k" using wf that k by (intro wf_stamp_mono) auto
    then show ?thesis using wf that k t by (simp add: wf_hit)
  qed
  then have "segment_loop ts t (int 0) 0 = Inr (int k)"
    using h k by (intro segment_loop_first_hit) auto
  then have "interpolate rt ts t = blend (rt ! k) (rt ! Suc k) (ts ! k) (ts ! Suc k) t"
    using wf k by (intro interpolate_index) (auto simp: well_formed_path_def)
  then show ?thesis using wf k by (simp add: wf_blend)
qed

lemma wf_after_end:
  assumes wf: "well_formed_path rt ts" and t: "the_num (last ts) \<le> t"
  shows "interpolate rt ts t = Inr (segment_position rt ts (length ts - 2) t)"
proof -
  have len: "2 \<le> length ts" using wf by (simp add: well_formed_path_def)
  have "\<not> hit ts t j" if "Suc j < length ts" for j
  proof -
    have "stamp ts (Suc j) \<le> stamp ts (length ts - 1)" using wf that by (intro wf_stamp_mono) auto
    then show ?thesis using wf that t by (simp add: wf_hit wf_last)
  qed
  then have "segment_loop ts t (int 0) 0 =
      Inr (if Suc 0 < length ts \<and> js_ge t (last ts) then int (length ts) - 2 else 0)"
    by (intro segment_loop_no_hit) auto
  moreover have "is_number (last ts)" using wf len wf_number [OF wf, of "length ts - 1"]
    by (cases "ts = []") (auto simp: last_conv_nth)
  then have "js_ge t (last ts)" using t by (cases "last ts") (auto simp: js_ge_def)
  moreover have "Suc 0 < length ts" using len by simp
  ultimately have sl: "segment_loop ts t 0 0 = Inr (int (length ts) - 2)" by simp
  define k where "k = length ts - 2"
  have e: "int (length ts) - 2 = int k" using len by (simp add: k_def)
  have k: "Suc k < length ts" using len by (simp add: k_def)
  have s: "segment_loop ts t 0 0 = Inr (int k)" using sl unfolding e .
  have l: "length rt = length ts" using wf by (simp add: well_formed_path_def)
  have "interpolate rt ts t = blend (rt ! k) (rt ! Suc k) (ts ! k) (ts ! Suc k) t"
    by (rule interpolate_index [OF s k l])
  also have "\<dots> = Inr (segment_position rt ts k t)"
    by (rule wf_blend [OF wf k])
  finally show ?thesis unfolding k_def .
qed

lemma wf_before_start:
  assumes wf: "well_formed_path rt ts" and t: "t < stamp ts 0"
  shows "interpolate rt ts t = Inr (rt ! 0)"
proof -
  have len: "2 \<le> length ts" using wf by (simp add: well_formed_path_def)
  have "\<not> hit ts t j" if "Suc j < length ts" for j
  proof -
    have "stamp ts 0 \<le> stamp ts j" using wf that by (intro wf_stamp_mono) auto
    then show ?thesis using wf that t by (simp add: wf_hit)
  qed
  then have "segment_loop ts t (int 0) 0 =
      Inr (if Suc 0 < length ts \<and> js_ge t (last ts) then int (length ts) - 2 else 0)"
    by (intro segment_loop_no_hit) auto
  moreover have "stamp ts 0 \<le> stamp ts (length ts - 1)" using wf len by (intro wf_stamp_mono) auto
  then have "t < the_num (last ts)" using t wf by (simp add: wf_last)
  moreover have "is_number (last ts)" using wf len wf_number [OF wf, of "length ts - 1"]
    by (cases "ts = []") (auto simp: last_conv_nth)
  ultimately have "segment_loop ts t 0 0 = Inr (int 0)"
    by (cases "last ts") (auto simp: js_ge_def)
  then have "interpolate rt ts t = blend (rt ! 0) (rt ! Suc 0) (ts ! 0) (ts ! Suc 0) t"
    using wf len by (intro interpolate_index) (auto simp: well_formed_path_def)
  then have "interpolate rt ts t = Inr (segment_position rt ts 0 t)"
    using wf len by (simp add: wf_blend)
  moreover have "alpha_of (stamp ts 0) (stamp ts (Suc 0)) t = 0"
  proof (cases "stamp ts (Suc 0) = stamp ts 0")
    case True then show ?thesis by (simp add: alpha_of_def)
  next
    case False
    have "stamp ts 0 \<le> stamp ts (Suc 0)" using wf len by (intro wf_stamp_mono) auto
    then have "(t - stamp ts 0) / (stamp ts (Suc 0) - stamp ts 0) \<le> 0"
      using t False by (simp add: divide_le_0_iff)
    then show ?thesis using False by (simp add: alpha_of_def)
  qed
  moreover have "0 < length ts" using len by linarith
  then obtain p where "rt ! 0 = Some p" using wf_point [OF wf, of 0] by blast
  ultimately show ?thesis by (simp add: segment_position_def lerp_def)
qed

lemma lerp_0: "lerp a b 0 = a" by (simp add: lerp_def)

lemma lerp_1: "lerp a b 1 = b" by (simp add: lerp_def)

lemma alpha_start: "alpha_of t0 t1 t0 = 0" by (simp add: alpha_of_def)

lemma alpha_end: "t0 < t1 \<Longrightarrow> alpha_of t0 t1 t1 = 1" by (simp add: alpha_of_def)

lemma alpha_mid: "t0 < t1 \<Longrightarrow> alpha_of t0 t1 ((t0 + t1) / 2) = 1 / 2"
proof -
  assume a: "t0 < t1"
  have "(t0 + t1) / 2 - t0 = (t1 - t0) / 2" by (simp add: field_simps)
  then have "((t0 + t1) / 2 - t0) / (t1 - t0) = 1 / 2" using a by simp
  then show ?thesis using a by (simp add: alpha_of_def)
qed

lemma wf_at_start:
  assumes wf: "well_formed_path rt ts" and k: "Suc k < length ts"
    and d: "stamp ts k < stamp ts (Suc k)"
  shows "interpolate rt ts (stamp ts k) = Inr (rt ! k)"
proof -
  have "interpolate rt ts (stamp ts k) = Inr (segment_position rt ts k (stamp ts k))"
    using wf k d by (intro wf_in_segment) auto
  moreover obtain p where "rt ! k = Some p" using wf_point [OF wf, of k] k by auto
  ultimately show ?thesis by (simp add: segment_position_def alpha_start lerp_0)
qed

lemma wf_at_end:
  assumes wf: "well_formed_path rt ts" and k: "Suc k < length ts"
    and d: "stamp ts k < stamp ts (Suc k)"
    and nxt: "Suc (Suc k) = length ts \<or> stamp ts (Suc k) < stamp ts (Suc (Suc k))"
  shows "interpolate rt ts (stamp ts (Suc k)) = Inr (rt ! Suc k)"
proof (cases "Suc (Suc k) = length ts")
  case True
  then have l: "length ts - 2 = k" "length ts - 1 = Suc k" by simp_all
  have "the_num (last ts) \<le> stamp ts (Suc k)" using wf l by (simp add: wf_last)
  then have "interpolate rt ts (stamp ts (Suc k)) = Inr (segment_position rt ts k (stamp ts (Suc k)))"
    using wf_after_end [OF wf, of "stamp ts (Suc k)"] l by simp
  moreover obtain p where "rt ! Suc k = Some p" using wf_point [OF wf, of "Suc k"] k by auto
  ultimately show ?thesis using d by (simp add: segment_position_def alpha_end lerp_1)
next
  case False
  then have k2: "Suc (Suc k) < length ts" and d2: "stamp ts (Suc k) < stamp ts (Suc (Suc k))"
    using k nxt by auto
  show ?thesis by (rule wf_at_start [OF wf k2 d2])
qed

lemma wf_at_mid:
  assumes wf: "well_formed_path rt ts" and k: "Suc k < length ts"
    and d: "stamp ts k < stamp ts (Suc k)"
  shows "interpolate rt ts ((stamp ts k + stamp ts (Suc k)) / 2) =
     Inr (Some ((fst (the (rt ! k)) + fst (the (rt ! Suc k))) / 2,
                (snd (the (rt ! k)) + snd (the (rt ! Suc k))) / 2))"
proof -
  let ?m = "(stamp ts k + stamp ts (Suc k)) / 2"
  have "stamp ts k \<le> ?m" "?m < stamp ts (Suc k)" using d by (simp_all add: field_simps)
  then have "interpolate rt ts ?m = Inr (segment_position rt ts k ?m)"
    using wf k by (intro wf_in_segment) auto
  then show ?thesis using d
    by (simp add: segment_position_def alpha_mid lerp_def field_simps)
qed

text \<open>
  C4, as the code has it. On a path of the data model (route and timestamps of one length
  at least 2, timestamps that never decrease) the sampled position at time \<open>t\<close> is: on the
  segment \<open>k\<close> with \<open>timestamps[k] \<le> t < timestamps[k+1]\<close>, per axis
  \<open>route[k] + (route[k+1] - route[k]) * alpha\<close> with alpha the elapsed fraction clamped
  to [0, 1]; for \<open>t\<close> at or after the last timestamp, the same on the final segment,
  with alpha = 0 (the earlier point) when that segment has no duration; for \<open>t\<close> before
  the first timestamp, \<open>route[0]\<close>. So for a segment of positive duration the result at
  its start time is its start point and at its temporal midpoint the average of its two
  points; at its end time it is its end point provided the segment is the last one or the
  next segment has positive duration.
\<close>

theorem interpolation_contract:
  assumes "well_formed_path rt ts"
  shows "(Suc k < length ts \<and> stamp ts k \<le> t \<and> t < stamp ts (Suc k)
            \<longrightarrow> interpolate rt ts t = Inr (segment_position rt ts k t))
   \<and> (the_num (last ts) \<le> t
            \<longrightarrow> interpolate rt ts t = Inr (segment_position rt ts (length ts - 2) t))
   \<and> (t < stamp ts 0 \<longrightarrow> interpolate rt ts t = Inr (rt ! 0))
   \<and> (Suc k < length ts \<and> stamp ts k = stamp ts (Suc k)
            \<longrightarrow> segment_position rt ts k t = rt ! k)
   \<and> (Suc k < length ts \<and> stamp ts k < stamp ts (Suc k)
            \<longrightarrow> interpolate rt ts (stamp ts k) = Inr (rt ! k)
              \<and> interpolate rt ts ((stamp ts k + stamp ts (Suc k)) / 2)
                  = Inr (Some ((fst (the (rt ! k)) + fst (the (rt ! Suc k))) / 2,
                               (snd (the (rt ! k)) + snd (the (rt ! Suc k))) / 2))
              \<and> (Suc (Suc k) = length ts \<or> stamp ts (Suc k) < stamp ts (Suc (Suc k))
                    \<longrightarrow> interpolate rt ts (stamp ts (Suc k)) = Inr (rt ! Suc k)))"
proof (intro conjI impI)
  assume "Suc k < length ts \<and> stamp ts k \<le> t \<and> t < stamp ts (Suc k)"
  then show "interpolate rt ts t = Inr (segment_position rt ts k t)"
    using wf_in_segment [OF assms, of k t] by simp
next
  assume "the_num (last ts) \<le> t"
  then show "interpolate rt ts t = Inr (segment_position rt ts (length ts - 2) t)"
    by (rule wf_after_end [OF assms])
next
  assume "t < stamp ts 0"
  then show "interpolate rt ts t = Inr (rt ! 0)"
    by (rule wf_before_start [OF assms])
next
  assume a: "Suc k < length ts \<and> stamp ts k = stamp ts (Suc k)"
  then have "k < length ts" by simp
  then obtain p where "rt ! k = Some p" using wf_point [OF assms, of k] by blast
  then show "segment_position rt ts k t = rt ! k"
    using a by (simp add: segment_position_def alpha_of_def lerp_0)
next
  assume "Suc k < length ts \<and> stamp ts k < stamp ts (Suc k)"
  then show "interpolate rt ts (stamp ts k) = Inr (rt ! k)"
    using wf_at_start [OF assms, of k] by simp
next
  assume "Suc k < length ts \<and> stamp ts k < stamp ts (Suc k)"
  then show "interpolate rt ts ((stamp ts k + stamp ts (Suc k)) / 2)
      = Inr (Some ((fst (the (rt ! k)) + fst (the (rt ! Suc k))) / 2,
                   (snd (the (rt ! k)) + snd (the (rt ! Suc k))) / 2))"
    using wf_at_mid [OF assms, of k] by simp
next
  assume "Suc k < length ts \<and> stamp ts k < stamp ts (Suc k)"
    and "Suc (Suc k) = length ts \<or> stamp ts (Suc k) < stamp ts (Suc (Suc k))"
  then show "interpolate rt ts (stamp ts (Suc k)) = Inr (rt ! Suc k)"
    using wf_at_end [OF assms, of k] by simp
qed

theorem interpolation_contract_witness:
  "well_formed_path [Some (0, 0), Some (1, 1), Some (2, 2)] [Num 0, Num 10, Num 20]
   \<and> interpolate [Some (0, 0), Some (1, 1), Some (2, 2)] [Num 0, Num 10, Num 20] 15
        = Inr (Some (3 / 2, 3 / 2))
   \<and> interpolate [Some (0, 0), Some (1, 1), Some (2, 2)] [Num 0, Num 10, Num 20] 10
        = Inr (Some (1, 1))
   \<and> interpolate [Some (0, 0), Some (1, 1), Some (2, 2)] [Num 0, Num 10, Num 20] 20
        = Inr (Some (2, 2))
   \<and> interpolate [Some (0, 0), Some (1, 1), Some (2, 2)] [Num 0, Num 10, Num 20] 25
        = Inr (Some (2, 2))
   \<and> interpolate [Some (0, 0), Some (1, 1), Some (2, 2)] [Num 0, Num 10, Num 20] (- 1)
        = Inr (Some (0, 0))
   \<and> well_formed_path [Some (0, 0), Some (1, 1), Some (5, 5)] [Num 0, Num 10, Num 10]
   \<and> interpolate [Some (0, 0), Some (1, 1), Some (5, 5)] [Num 0, Num 10, Num 10] 12
        = Inr (Some (1, 1))"
proof -
  have wf: "well_formed_path [Some (0, 0), Some (1, 1), Some (2, 2)] [Num 0, Num 10, Num 20]"
    by (simp add: well_formed_path_def)
  have wf2: "well_formed_path [Some (0, 0), Some (1, 1), Some (5, 5)] [Num 0, Num 10, Num 10]"
    by (simp add: well_formed_path_def)
  show ?thesis
    using wf wf2 interpolation_contract [OF wf, of 1 15] interpolation_contract [OF wf, of 0 25]
      interpolation_contract [OF wf, of 1 "- 1"] interpolation_contract [OF wf2, of 1 12]
    by (simp add: segment_position_def stamp_def alpha_of_def lerp_def)
qed

text \<open>Timestamps 0, 10, 10, 20: the first segment has positive duration and ends at time
  10 in the point (1, 1); at time 10 the code returns (5, 5), the start of the segment
  after the one of no duration.\<close>

theorem interpolation_end_point_counterexample:
  "well_formed_path [Some (0, 0), Some (1, 1), Some (5, 5), Some (6, 6)]
      [Num 0, Num 10, Num 10, Num 20]
   \<and> stamp [Num 0, Num 10, Num 10, Num 20] 0 < stamp [Num 0, Num 10, Num 10, Num 20] 1
   \<and> stamp [Num 0, Num 10, Num 10, Num 20] 1 = 10
   \<and> [Some (0, 0), Some (1, 1), Some (5, 5), Some (6 :: real, 6 :: real)] ! 1 = Some (1, 1)
   \<and> interpolate [Some (0, 0), Some (1, 1), Some (5, 5), Some (6, 6)]
        [Num 0, Num 10, Num 10, Num 20] 10 = Inr (Some (5, 5))"
  by (simp add: well_formed_path_def stamp_def interpolate_def segment_loop.simps
      segment_test_def read_at_def clamp_index_def blend_def js_ge_def Let_def)

subsection \<open>The three collections\<close>

lemma blend_points: "\<exists>c. blend (Some pa) (Some pb) t0 t1 t = Inr (Some c)"
  by (simp add: blend_def Let_def)

lemma interpolate_point:
  assumes "2 \<le> length rt" "2 \<le> length ts" "list_all (\<lambda>e. e \<noteq> None) rt"
  shows "\<exists>c. interpolate rt ts t = Inr (Some c)"
proof -
  obtain i j i' j' where ij: "i < length rt" "j < length rt"
    and eq: "interpolate rt ts t = blend (rt ! i) (rt ! j) (ts ! i') (ts ! j') t"
    using interpolate_blend [OF assms(1,2), of t] by blast
  have "\<forall>n<length rt. \<exists>p. rt ! n = Some p"
    using assms(3) by (simp add: list_all_length)
  then obtain pa pb where "rt ! i = Some pa" "rt ! j = Some pb"
    using ij by blast
  then show ?thesis using eq blend_points [of pa pb "ts ! i'" "ts ! j'" t] by simp
qed

lemma usable_Some:
  "route tr = Some rt \<Longrightarrow> timestamp tr = Some ts \<Longrightarrow> 2 \<le> length rt \<Longrightarrow> 2 \<le> length ts
     \<Longrightarrow> usable (Some tr) = Some (rt, ts)"
  by (simp add: usable_def)

lemma usable_malformed: "usable t = None \<longleftrightarrow> malformed t"
  by (auto simp: usable_def malformed_def split: option.splits)

lemma match_arc_in:
  assumes u: "usable t = Some (rt, ts)" and n: "list_all is_number ts"
    and p: "list_all (\<lambda>e. e \<noteq> None) rt"
    and w: "stamp ts 0 \<le> time" "time \<le> stamp ts 1"
  shows "\<exists>c q. interpolate rt ts time = Inr (Some c) \<and> rt ! 1 = Some q
     \<and> match_arc t time = Inr [\<lparr>source = c, target = q\<rparr>]"
proof -
  have len: "2 \<le> length rt" "2 \<le> length ts"
    using u by (auto simp: usable_def split: option.splits if_splits)
  obtain c where c: "interpolate rt ts time = Inr (Some c)"
    using interpolate_point [OF len p] by blast
  have "1 < length rt" using len by linarith
  moreover have "\<forall>n<length rt. \<exists>p. rt ! n = Some p"
    using p by (simp add: list_all_length)
  ultimately obtain q where q: "rt ! 1 = Some q" by blast
  have "0 < length ts" "1 < length ts" using len by linarith+
  then have "is_number (ts ! 0)" "is_number (ts ! 1)" using n by (auto simp: list_all_length)
  then have "match_arc t time = Inr [\<lparr>source = c, target = q\<rparr>]"
    using u w c q by (simp add: match_arc_def stamp_def Let_def)
  then show ?thesis using c q by blast
qed

lemma match_arc_out:
  assumes u: "usable t = Some (rt, ts)" and w: "\<not> (stamp ts 0 \<le> time \<and> time \<le> stamp ts 1)"
  shows "match_arc t time = Inr []"
  using u w by (auto simp: match_arc_def stamp_def Let_def)

lemma occupied_arc_in:
  assumes u: "usable t = Some (rt, ts)" and n: "list_all is_number ts"
    and p: "list_all (\<lambda>e. e \<noteq> None) rt"
    and w: "stamp ts 1 \<le> time" "time \<le> the_num (last ts)"
  shows "\<exists>c q. interpolate rt ts time = Inr (Some c) \<and> last rt = Some q
     \<and> occupied_arc t time = Inr [\<lparr>source = c, target = q\<rparr>]"
proof -
  have len: "2 \<le> length rt" "2 \<le> length ts"
    using u by (auto simp: usable_def split: option.splits if_splits)
  obtain c where c: "interpolate rt ts time = Inr (Some c)"
    using interpolate_point [OF len p] by blast
  have ne: "rt \<noteq> []" "ts \<noteq> []" using len by auto
  have "length rt - 1 < length rt" using len by linarith
  moreover have "\<forall>n<length rt. \<exists>p. rt ! n = Some p"
    using p by (simp add: list_all_length)
  ultimately obtain q where q: "rt ! (length rt - 1) = Some q" by blast
  have "length ts - 1 < length ts" "1 < length ts" using len by linarith+
  then have "is_number (ts ! (length ts - 1))" "is_number (ts ! 1)"
    using n by (auto simp: list_all_length)
  then have "occupied_arc t time = Inr [\<lparr>source = c, target = q\<rparr>]"
    using u w c q ne by (simp add: occupied_arc_def stamp_def Let_def last_conv_nth)
  then show ?thesis using c q ne by (auto simp: last_conv_nth)
qed

lemma occupied_arc_out:
  assumes u: "usable t = Some (rt, ts)"
    and w: "\<not> (stamp ts 1 \<le> time \<and> time \<le> the_num (last ts))"
  shows "occupied_arc t time = Inr []"
proof -
  have "ts \<noteq> []" using u by (auto simp: usable_def split: option.splits if_splits)
  then show ?thesis using u w by (auto simp: occupied_arc_def stamp_def Let_def last_conv_nth)
qed


lemma collect_error:
  "collect f xs = Inl e \<Longrightarrow> \<exists>x\<in>set xs. f x = Inl e"
  by (induction xs) (auto split: sum.splits)








lemma interpolate_no_undefined:
  assumes "2 \<le> length rt" "2 \<le> length ts"
  shows "interpolate rt ts time \<noteq> Inl UndefinedRead"
proof -
  obtain i j i' j' where "interpolate rt ts time = blend (rt ! i) (rt ! j) (ts ! i') (ts ! j') time"
    using interpolate_blend [OF assms, of time] by blast
  then show ?thesis by (simp add: blend_no_undefined)
qed

lemma usable_lengths: "usable t = Some (rt, ts) \<Longrightarrow> 2 \<le> length rt \<and> 2 \<le> length ts"
  by (auto simp: usable_def split: option.splits if_splits)

lemma match_arc_no_undefined: "match_arc t time \<noteq> Inl UndefinedRead"
proof (cases "usable t")
  case None
  then show ?thesis by (simp add: match_arc_def)
next
  case (Some u)
  obtain rt ts where u: "u = (rt, ts)" by (cases u)
  have "interpolate rt ts time \<noteq> Inl UndefinedRead"
    using usable_lengths [of t rt ts] Some u by (intro interpolate_no_undefined) auto
  then show ?thesis using Some u
    by (auto simp: match_arc_def Let_def split: sum.splits option.splits)
qed

lemma occupied_arc_no_undefined: "occupied_arc t time \<noteq> Inl UndefinedRead"
proof (cases "usable t")
  case None
  then show ?thesis by (simp add: occupied_arc_def)
next
  case (Some u)
  obtain rt ts where u: "u = (rt, ts)" by (cases u)
  have "interpolate rt ts time \<noteq> Inl UndefinedRead"
    using usable_lengths [of t rt ts] Some u by (intro interpolate_no_undefined) auto
  then show ?thesis using Some u
    by (auto simp: occupied_arc_def Let_def split: sum.splits option.splits)
qed

lemma match_arcs_no_undefined: "match_arcs trip time \<noteq> Inl UndefinedRead"
  using collect_error [of "\<lambda>t. match_arc t time" _ UndefinedRead] match_arc_no_undefined
  by (auto simp: match_arcs_def split: option.splits)

lemma occupied_arcs_no_undefined: "occupied_arcs trip time \<noteq> Inl UndefinedRead"
  using collect_error [of "\<lambda>t. occupied_arc t time" _ UndefinedRead] occupied_arc_no_undefined
  by (auto simp: occupied_arcs_def split: option.splits)

text \<open>
  C1, as the code has it. For a trip with route and timestamp arrays of length at least 2,
  numeric timestamps and coordinate pairs as route entries, the dispatch arc (from the
  interpolated position to \<open>route[1]\<close>) is emitted exactly when
  \<open>timestamp[0] \<le> t \<le> timestamp[1]\<close>, and the occupied arc (to the last route point)
  exactly when \<open>timestamp[1] \<le> t \<le> timestamp[last]\<close>: both windows include both of
  their ends, so at \<open>t = timestamp[1]\<close> the trip emits a dispatch arc and an occupied arc.
\<close>

theorem phase_windows_closed:
  assumes "route tr = Some rt" and "timestamp tr = Some ts"
    and "2 \<le> length rt" and "2 \<le> length ts"
    and "list_all is_number ts" and "list_all (\<lambda>e. e \<noteq> None) rt"
  shows "(stamp ts 0 \<le> time \<and> time \<le> stamp ts 1 \<longrightarrow>
            (\<exists>c q. interpolate rt ts time = Inr (Some c) \<and> rt ! 1 = Some q
               \<and> match_arc (Some tr) time = Inr [\<lparr>source = c, target = q\<rparr>]))
   \<and> (\<not> (stamp ts 0 \<le> time \<and> time \<le> stamp ts 1) \<longrightarrow> match_arc (Some tr) time = Inr [])
   \<and> (stamp ts 1 \<le> time \<and> time \<le> the_num (last ts) \<longrightarrow>
            (\<exists>c q. interpolate rt ts time = Inr (Some c) \<and> last rt = Some q
               \<and> occupied_arc (Some tr) time = Inr [\<lparr>source = c, target = q\<rparr>]))
   \<and> (\<not> (stamp ts 1 \<le> time \<and> time \<le> the_num (last ts)) \<longrightarrow>
            occupied_arc (Some tr) time = Inr [])
   \<and> (stamp ts 0 \<le> stamp ts 1 \<and> stamp ts 1 \<le> the_num (last ts) \<longrightarrow>
            match_arc (Some tr) (stamp ts 1) \<noteq> Inr []
            \<and> occupied_arc (Some tr) (stamp ts 1) \<noteq> Inr [])"
proof -
  have u: "usable (Some tr) = Some (rt, ts)"
    using assms(1-4) by (rule usable_Some)
  note din = match_arc_in [OF u assms(5,6)]
  note oin = occupied_arc_in [OF u assms(5,6)]
  have a: "stamp ts 0 \<le> time \<and> time \<le> stamp ts 1 \<longrightarrow>
            (\<exists>c q. interpolate rt ts time = Inr (Some c) \<and> rt ! 1 = Some q
               \<and> match_arc (Some tr) time = Inr [\<lparr>source = c, target = q\<rparr>])"
    using din [of time] by blast
  have b: "\<not> (stamp ts 0 \<le> time \<and> time \<le> stamp ts 1) \<longrightarrow> match_arc (Some tr) time = Inr []"
    using match_arc_out [OF u, of time] by blast
  have c: "stamp ts 1 \<le> time \<and> time \<le> the_num (last ts) \<longrightarrow>
            (\<exists>c q. interpolate rt ts time = Inr (Some c) \<and> last rt = Some q
               \<and> occupied_arc (Some tr) time = Inr [\<lparr>source = c, target = q\<rparr>])"
    using oin [of time] by blast
  have d: "\<not> (stamp ts 1 \<le> time \<and> time \<le> the_num (last ts)) \<longrightarrow>
            occupied_arc (Some tr) time = Inr []"
    using occupied_arc_out [OF u, of time] by blast
  have e: "stamp ts 0 \<le> stamp ts 1 \<and> stamp ts 1 \<le> the_num (last ts) \<longrightarrow>
            match_arc (Some tr) (stamp ts 1) \<noteq> Inr []
            \<and> occupied_arc (Some tr) (stamp ts 1) \<noteq> Inr []"
  proof (intro impI conjI)
    assume w: "stamp ts 0 \<le> stamp ts 1 \<and> stamp ts 1 \<le> the_num (last ts)"
    obtain c1 q1 where "match_arc (Some tr) (stamp ts 1) = Inr [\<lparr>source = c1, target = q1\<rparr>]"
      using din [of "stamp ts 1"] w by auto
    then show "match_arc (Some tr) (stamp ts 1) \<noteq> Inr []" by simp
    obtain c2 q2 where "occupied_arc (Some tr) (stamp ts 1) = Inr [\<lparr>source = c2, target = q2\<rparr>]"
      using oin [of "stamp ts 1"] w by auto
    then show "occupied_arc (Some tr) (stamp ts 1) \<noteq> Inr []" by simp
  qed
  from a b c d e show ?thesis by blast
qed

theorem phase_windows_closed_witness:
  "route trip_a = Some [Some (0, 0), Some (1, 1), Some (2, 2)]
   \<and> timestamp trip_a = Some [Num 0, Num 10, Num 20]
   \<and> match_arc (Some trip_a) 5 = Inr [\<lparr>source = (1 / 2, 1 / 2), target = (1, 1)\<rparr>]
   \<and> match_arc (Some trip_a) 10 \<noteq> Inr []
   \<and> occupied_arc (Some trip_a) 10 \<noteq> Inr []
   \<and> occupied_arc (Some trip_a) 15 = Inr [\<lparr>source = (3 / 2, 3 / 2), target = (2, 2)\<rparr>]
   \<and> match_arc (Some trip_a) 25 = Inr [] \<and> occupied_arc (Some trip_a) 25 = Inr []"
proof -
  have h1: "route trip_a = Some [Some (0, 0), Some (1, 1), Some (2, 2)]"
    by (simp add: trip_a_def)
  have h2: "timestamp trip_a = Some [Num 0, Num 10, Num 20]" by (simp add: trip_a_def)
  have h3: "2 \<le> length [Some (0, 0), Some (1, 1), Some (2 :: real, 2 :: real)]" by simp
  have h4: "2 \<le> length [Num 0, Num 10, Num 20]" by simp
  have h5: "list_all is_number [Num 0, Num 10, Num 20]" by simp
  have h6: "list_all (\<lambda>e. e \<noteq> None) [Some (0, 0), Some (1, 1), Some (2 :: real, 2 :: real)]"
    by simp
  note th = phase_windows_closed [OF h1 h2 h3 h4 h5 h6]
  have i5: "interpolate [Some (0, 0), Some (1, 1), Some (2, 2)] [Num 0, Num 10, Num 20] 5
      = Inr (Some (1 / 2, 1 / 2))"
    by (simp add: interpolate_def segment_loop.simps segment_test_def read_at_def
        clamp_index_def blend_def js_ge_def Let_def)
  have i15: "interpolate [Some (0, 0), Some (1, 1), Some (2, 2)] [Num 0, Num 10, Num 20] 15
      = Inr (Some (3 / 2, 3 / 2))"
    by (simp add: interpolate_def segment_loop.simps segment_test_def read_at_def
        clamp_index_def blend_def js_ge_def Let_def)
  show ?thesis
    using h1 h2 th [of 5] th [of 10] th [of 15] th [of 25] i5 i15
    by (simp add: stamp_def)
qed

text \<open>The trip of the specification's example at \<open>t = 10 = timestamp[1]\<close>: the collection
  of dispatch arcs is not empty.\<close>

theorem dispatch_at_pickup_counterexample:
  "timestamp trip_a = Some [Num 0, Num 10, Num 20]
   \<and> match_arcs (Some [Some trip_a]) 10 = Inr [\<lparr>source = (1, 1), target = (1, 1)\<rparr>]
   \<and> occupied_arcs (Some [Some trip_a]) 10 = Inr [\<lparr>source = (1, 1), target = (2, 2)\<rparr>]"
  by (simp add: match_arcs_def match_arc_def occupied_arcs_def occupied_arc_def usable_def
      trip_a_def interpolate_def segment_loop.simps segment_test_def read_at_def
      clamp_index_def blend_def js_ge_def Let_def)



text \<open>
  C10. In the interpolation that builds the dispatch and occupied arcs no read of the
  route or of the timestamps falls outside \<open>0 .. length - 1\<close>: for every trip (those that
  pass the guard of length at least 2 reach the interpolation), also when the route and the
  timestamps differ in length, the outcome is never an undefined read, and the position is
  computed from two route entries and two timestamps at indices inside their arrays.
\<close>

theorem interpolation_reads_in_bounds:
  "match_arc t time \<noteq> Inl UndefinedRead \<and> occupied_arc t time \<noteq> Inl UndefinedRead
   \<and> match_arcs trip time \<noteq> Inl UndefinedRead \<and> occupied_arcs trip time \<noteq> Inl UndefinedRead
   \<and> (2 \<le> length rt \<and> 2 \<le> length ts \<longrightarrow>
        interpolate rt ts time \<noteq> Inl UndefinedRead
        \<and> (\<exists>i j i' j'. i < length rt \<and> j < length rt \<and> i' < length ts \<and> j' < length ts
              \<and> interpolate rt ts time = blend (rt ! i) (rt ! j) (ts ! i') (ts ! j') time))"
  using match_arc_no_undefined [of t time] occupied_arc_no_undefined [of t time]
    match_arcs_no_undefined [of trip time] occupied_arcs_no_undefined [of trip time]
    interpolate_no_undefined [of rt ts time] interpolate_blend [of rt ts time]
  by blast

theorem interpolation_reads_in_bounds_witness:
  "route trip_m = Some [Some (0, 0), Some (1, 1)]
   \<and> timestamp trip_m = Some [Num 0, Num 10, Num 20, Num 30]
   \<and> 2 \<le> length [Some (0, 0), Some (1 :: real, 1 :: real)]
   \<and> 2 \<le> length [Num 0, Num 10, Num 20, Num 30]
   \<and> interpolate [Some (0, 0), Some (1, 1)] [Num 0, Num 10, Num 20, Num 30] 25 \<noteq> Inl UndefinedRead
   \<and> interpolate [Some (0, 0), Some (1, 1)] [Num 0, Num 10, Num 20, Num 30] 25 = Inr (Some (1, 1))
   \<and> occupied_arc (Some trip_m) 25 \<noteq> Inl UndefinedRead
   \<and> occupied_arc (Some trip_m) 25 = Inr [\<lparr>source = (1, 1), target = (1, 1)\<rparr>]"
proof -
  have i: "interpolate [Some (0, 0), Some (1, 1)] [Num 0, Num 10, Num 20, Num 30] 25
      = Inr (Some (1, 1))"
    by (simp add: interpolate_def segment_loop.simps segment_test_def read_at_def
        clamp_index_def blend_def js_ge_def Let_def)
  have o: "occupied_arc (Some trip_m) 25 = Inr [\<lparr>source = (1, 1), target = (1, 1)\<rparr>]"
    by (simp add: occupied_arc_def usable_def trip_m_def i)
  show ?thesis
    using i o interpolation_reads_in_bounds [of "Some trip_m" 25 "Some [Some trip_m]"
        "[Some (0, 0), Some (1, 1)]" "[Num 0, Num 10, Num 20, Num 30]"]
    by (simp add: trip_m_def)
qed


end
